theory Spec2Isabelle
  imports Main
begin

section \<open>The OCR server: text clean-up, image pipeline, worker pool\<close>

text \<open>
  A shallow embedding of \<^verbatim>\<open>src/server/server.cpp\<close>. The Tesseract engine, the
  Leptonica image primitives, the file system and the clock are capabilities of the
  environment: the model takes them as fields of a record and follows the control flow
  of the C++ around them.
\<close>

subsection \<open>Strings\<close>

text \<open>
  A \<^verbatim>\<open>std::string\<close> and a \<^verbatim>\<open>std::vector<uint8_t>\<close> are lists of 8-bit
  characters; \<open>of_char\<close> reads a character as the \<^verbatim>\<open>unsigned char\<close> the lambda of
  the source receives.
\<close>

type_synonym bytes = string

text \<open>The idiom \<^verbatim>\<open>s.erase(std::remove_if(s.begin(), s.end(), p), s.end())\<close>.\<close>

definition remove_if :: "(char \<Rightarrow> bool) \<Rightarrow> string \<Rightarrow> string" where
  "remove_if p s = filter (\<lambda>c. \<not> p c) s"

text \<open>The idiom \<^verbatim>\<open>s.erase(std::remove(s.begin(), s.end(), x), s.end())\<close>.\<close>

definition remove_chr :: "char \<Rightarrow> string \<Rightarrow> string" where
  "remove_chr x s = filter (\<lambda>c. c \<noteq> x) s"

text \<open>
  The predicate of lines 128 and 138:
  \<^verbatim>\<open>c > 127 || (c < 32 && c != ' ' && c != '\n')\<close>.
\<close>

definition is_junk :: "char \<Rightarrow> bool" where
  "is_junk c \<longleftrightarrow>
     (127::nat) < of_char c \<or>
     ((of_char c :: nat) < 32 \<and> c \<noteq> CHR '' '' \<and> c \<noteq> CHR ''\<newline>'')"

text \<open>
  \<^verbatim>\<open>std::string::find_first_not_of\<close> and \<^verbatim>\<open>find_last_not_of\<close>: the position of
  the first (last) character that is not one of \<open>cs\<close>; \<open>None\<close> is \<^verbatim>\<open>npos\<close>.
\<close>

fun find_first_not_of :: "string \<Rightarrow> string \<Rightarrow> nat option" where
  "find_first_not_of [] cs = None"
| "find_first_not_of (x # xs) cs =
     (if x \<in> set cs then map_option Suc (find_first_not_of xs cs) else Some 0)"

fun find_last_not_of :: "string \<Rightarrow> string \<Rightarrow> nat option" where
  "find_last_not_of [] cs = None"
| "find_last_not_of (x # xs) cs =
     (case find_last_not_of xs cs of
        Some i \<Rightarrow> Some (Suc i)
      | None \<Rightarrow> if x \<in> set cs then None else Some 0)"

text \<open>
  \<^verbatim>\<open>s.substr(pos, n)\<close>. The C++ throws when \<open>pos\<close> is beyond the end of \<open>s\<close>; at
  its one call \<open>pos\<close> is a position found in \<open>s\<close> (lemma \<open>find_first_not_of_less\<close>).
\<close>

definition substr :: "string \<Rightarrow> nat \<Rightarrow> nat \<Rightarrow> string" where
  "substr s pos n = take n (drop pos s)"

text \<open>
  Lines 146 to 160, the part under the comment \<^verbatim>\<open>// Clean up text\<close>: carriage
  returns and tabs are erased, spaces and newlines are cut from both ends, and an empty
  text becomes \<^verbatim>\<open>[UNREADABLE]\<close>. The two positions are \<^verbatim>\<open>size_t\<close>; the
  difference \<open>e - s\<close> is taken only when both exist, where \<open>s \<le> e\<close>
  (lemma \<open>find_first_le_last\<close>).
\<close>

definition clean_up :: "string \<Rightarrow> string" where
  "clean_up text0 =
     (let text1 = remove_chr (CHR 0x0D) text0;
          text2 = remove_chr (CHR 0x09) text1;
          start_pos = find_first_not_of text2 '' \<newline>'';
          end_pos = find_last_not_of text2 '' \<newline>'';
          text3 = (case (start_pos, end_pos) of
                     (Some s, Some e) \<Rightarrow> substr text2 s (e - s + 1)
                   | _ \<Rightarrow> [])
      in if text3 = [] then ''[UNREADABLE]'' else text3)"

text \<open>
  What the source does to the raw text of one recognition attempt, from the engine's
  output to the text of the result: the erasure of lines 127 and 128 (137 and 138 for
  the second attempt), then the clean-up.
\<close>

definition sanitize :: "string \<Rightarrow> string" where
  "sanitize raw = clean_up (remove_if is_junk raw)"

subsection \<open>The sanitization as the specification words it\<close>

text \<open>
  For comparison with \<open>sanitize\<close>: the specification's four steps, in its words. The
  control characters of ASCII are the codes below 32 and the code 127 (DEL), the
  characters for which \<^verbatim>\<open>iscntrl\<close> holds.
\<close>

definition is_control :: "char \<Rightarrow> bool" where
  "is_control c \<longleftrightarrow> (of_char c :: nat) < 32 \<or> (of_char c :: nat) = 127"

definition spec_stripped :: "char \<Rightarrow> bool" where
  "spec_stripped c \<longleftrightarrow>
     (127::nat) < of_char c
     \<or> (is_control c \<and> c \<noteq> CHR '' '' \<and> c \<noteq> CHR ''\<newline>'')
     \<or> c = CHR 0x0D \<or> c = CHR 0x09"

definition is_blank :: "char \<Rightarrow> bool" where
  "is_blank c \<longleftrightarrow> c = CHR '' '' \<or> c = CHR ''\<newline>''"

definition spec_trim :: "string \<Rightarrow> string" where
  "spec_trim s = dropWhile is_blank (rev (dropWhile is_blank (rev s)))"

definition spec_sanitize :: "string \<Rightarrow> string" where
  "spec_sanitize raw =
     (let t = spec_trim (filter (\<lambda>c. \<not> spec_stripped c) raw)
      in if t = [] then ''[UNREADABLE]'' else t)"

subsection \<open>The environment of one call of \<open>process_image\<close>\<close>

text \<open>
  \<open>'pix\<close> is a decoded bitmap (a \<^verbatim>\<open>Pix*\<close> that is not null), \<open>'f\<close> a
  \<^verbatim>\<open>float\<close>, \<open>'tm\<close> the elapsed time in milliseconds. A Leptonica call whose
  result the source tests against null returns an option; \<^verbatim>\<open>pixConvertTo8\<close> and
  \<^verbatim>\<open>pixScale\<close>, whose results the source uses untested, return a bitmap.
  The arguments that the source fixes (radius and amount of the unsharp mask, tile sizes
  and thresholds) are part of the capability.
  \<^item> \<open>Init_fails\<close>: \<^verbatim>\<open>api.Init(...)\<close> returns non-zero;
  \<^item> \<open>pixRead\<close>: the image bytes written to the temporary file and read back
    (lines 50 to 55 and 70), \<open>None\<close> when no bitmap comes out;
  \<^item> \<open>fdiv a b\<close>: the float division \<^verbatim>\<open>a.0f / b\<close>; \<open>fmax\<close>:
    \<^verbatim>\<open>std::max\<close> on floats;
  \<^item> \<open>encode_png\<close>: \<^verbatim>\<open>pixWrite\<close> to the file of processed data and the bytes
    read back from it (lines 109 to 120);
  \<^item> \<open>recognize m p\<close>: what \<^verbatim>\<open>GetUTF8Text\<close> returns for the image \<open>p\<close> in
    page segmentation mode \<open>m\<close>, \<open>None\<close> for a null pointer.
\<close>

datatype PageSegMode = PSM_SINGLE_BLOCK | PSM_SINGLE_WORD

record ('pix, 'f, 'tm) env =
  Init_fails :: bool
  pixRead :: "bytes \<Rightarrow> 'pix option"
  pixConvertTo8 :: "'pix \<Rightarrow> 'pix"
  pixGetWidth :: "'pix \<Rightarrow> int"
  pixGetHeight :: "'pix \<Rightarrow> int"
  fdiv :: "int \<Rightarrow> int \<Rightarrow> 'f"
  fmax :: "'f \<Rightarrow> 'f \<Rightarrow> 'f"
  pixScale :: "'pix \<Rightarrow> 'f \<Rightarrow> 'f \<Rightarrow> 'pix"
  pixUnsharpMaskingGray :: "'pix \<Rightarrow> 'pix option"
  pixContrastNorm :: "'pix \<Rightarrow> 'pix option"
  pixOtsuThreshOnBackgroundNorm :: "'pix \<Rightarrow> 'pix option"
  encode_png :: "'pix \<Rightarrow> bytes"
  recognize :: "PageSegMode \<Rightarrow> 'pix \<Rightarrow> string option"
  elapsed :: 'tm

subsection \<open>The engine object\<close>

text \<open>
  The state of the \<^verbatim>\<open>tesseract::TessBaseAPI\<close> object of one call: the mode and
  the image that were set, and \<open>runs\<close>, the recognitions it has performed so far, each
  with its mode and its image, oldest first.
\<close>

record 'pix TessBaseAPI =
  page_seg_mode :: PageSegMode
  api_image :: "'pix option"
  runs :: "(PageSegMode \<times> 'pix) list"

text \<open>
  The object after a successful \<^verbatim>\<open>Init\<close>: no image, no recognition yet. Line 68
  sets the mode before the object is used.
\<close>

definition Init_api :: "'pix TessBaseAPI" where
  "Init_api = \<lparr>page_seg_mode = PSM_SINGLE_BLOCK, api_image = None, runs = []\<rparr>"

definition SetPageSegMode :: "PageSegMode \<Rightarrow> 'pix TessBaseAPI \<Rightarrow> 'pix TessBaseAPI" where
  "SetPageSegMode m api = api\<lparr>page_seg_mode := m\<rparr>"

definition SetImage :: "'pix \<Rightarrow> 'pix TessBaseAPI \<Rightarrow> 'pix TessBaseAPI" where
  "SetImage p api = api\<lparr>api_image := Some p\<rparr>"

definition GetUTF8Text ::
  "('pix, 'f, 'tm) env \<Rightarrow> 'pix TessBaseAPI \<Rightarrow> string option \<times> 'pix TessBaseAPI" where
  "GetUTF8Text env api =
     (case api_image api of
        None \<Rightarrow> (None, api)
      | Some p \<Rightarrow>
          (recognize env (page_seg_mode api) p,
           api\<lparr>runs := runs api @ [(page_seg_mode api, p)]\<rparr>))"

text \<open>\<^verbatim>\<open>raw_text ? raw_text : ""\<close>\<close>

definition text_or_empty :: "string option \<Rightarrow> string" where
  "text_or_empty raw_text = (case raw_text of Some t \<Rightarrow> t | None \<Rightarrow> [])"

subsection \<open>The image pipeline (lines 80 to 107)\<close>

text \<open>Lines 84 to 92: the variable \<open>scaled\<close> after the test on width and height.\<close>

definition upscale_if_small :: "('pix, 'f, 'tm) env \<Rightarrow> 'pix \<Rightarrow> 'pix" where
  "upscale_if_small env gray =
     (let w = pixGetWidth env gray;
          h = pixGetHeight env gray
      in if w < 500 \<or> h < 250
         then (let scale = fmax env (fdiv env 500 w) (fdiv env 250 h)
               in pixScale env gray scale scale)
         else gray)"

text \<open>Lines 94 to 98: \<open>scaled\<close> after the unsharp mask.\<close>

definition sharpen :: "('pix, 'f, 'tm) env \<Rightarrow> 'pix \<Rightarrow> 'pix" where
  "sharpen env scaled =
     (case pixUnsharpMaskingGray env scaled of
        Some sharpened \<Rightarrow> sharpened
      | None \<Rightarrow> scaled)"

text \<open>Lines 100 to 104: \<open>scaled\<close> after the contrast normalization.\<close>

definition normalize_contrast :: "('pix, 'f, 'tm) env \<Rightarrow> 'pix \<Rightarrow> 'pix" where
  "normalize_contrast env scaled =
     (case pixContrastNorm env scaled of
        Some contrast \<Rightarrow> contrast
      | None \<Rightarrow> scaled)"

text \<open>Lines 106 and 107: \<^verbatim>\<open>binary ? binary : scaled\<close>.\<close>

definition binary_or_scaled :: "('pix, 'f, 'tm) env \<Rightarrow> 'pix \<Rightarrow> 'pix" where
  "binary_or_scaled env scaled =
     (case pixOtsuThreshOnBackgroundNorm env scaled of
        Some binary \<Rightarrow> binary
      | None \<Rightarrow> scaled)"

text \<open>The variable \<open>final_image\<close> of line 107, from the bitmap that \<open>pixRead\<close> gave.\<close>

definition final_image :: "('pix, 'f, 'tm) env \<Rightarrow> 'pix \<Rightarrow> 'pix" where
  "final_image env img =
     binary_or_scaled env
       (normalize_contrast env
         (sharpen env
           (upscale_if_small env (pixConvertTo8 env img))))"

subsection \<open>\<open>ThreadPool::process_image\<close>\<close>

record 'tm OCRResult =
  ocr_text :: string
  time_ms :: 'tm
  processed_image :: bytes

text \<open>
  The function returns the \<^verbatim>\<open>OCRResult\<close> and, beside it, the recognitions its
  engine object performed. The two early returns are the first two branches.
\<close>

definition process_image ::
  "('pix, 'f, 'tm) env \<Rightarrow> bytes \<Rightarrow> 'tm OCRResult \<times> (PageSegMode \<times> 'pix) list" where
  "process_image env image_data =
     (if Init_fails env
      then (\<lparr>ocr_text = ''[ERROR: Tesseract initialization failed]'',
             time_ms = elapsed env, processed_image = []\<rparr>, [])
      else
        let api0 = SetPageSegMode PSM_SINGLE_BLOCK Init_api
        in case pixRead env image_data of
             None \<Rightarrow>
               (\<lparr>ocr_text = ''[ERROR: Unable to open image]'',
                 time_ms = elapsed env, processed_image = []\<rparr>, runs api0)
           | Some img \<Rightarrow>
               let final = final_image env img;
                   processed_data = encode_png env final;
                   (raw_text, api1) = GetUTF8Text env (SetImage final api0);
                   text1 = remove_if is_junk (text_or_empty raw_text);
                   (text2, api2) =
                     (if text1 = [] \<or> length text1 < 2
                      then
                        let (raw_text', api') =
                              GetUTF8Text env
                                (SetImage final (SetPageSegMode PSM_SINGLE_WORD api1))
                        in (remove_if is_junk (text_or_empty raw_text'), api')
                      else (text1, api1))
               in (\<lparr>ocr_text = clean_up text2,
                    time_ms = elapsed env, processed_image = processed_data\<rparr>,
                   runs api2))"

subsection \<open>Requests, responses, tasks\<close>

text \<open>
  The two protobuf messages, with the fields that the server reads and sets, and the
  task of the pool. A task points to the response and to the completion flag of the
  call that made it: \<open>response\<close> and \<open>completed\<close> are addresses.
\<close>

type_synonym addr = nat

record ImageRequest =
  filename :: string
  image_data :: bytes
  batch_id :: int
  image_id :: int

record 'tm OCRResponse =
  resp_image_id :: int
  resp_filename :: string
  extracted_text :: string
  processing_time_ms :: 'tm
  success :: bool
  resp_processed_image :: bytes

record OCRTask =
  request :: ImageRequest
  response :: addr
  completed :: addr

datatype Status = Status_OK | Status_error

subsection \<open>The pool\<close>

text \<open>
  Where a worker thread stands in the loop of \<open>ThreadPool::worker\<close>, with the
  local variables it has there: \<open>Idle\<close> at the wait of line 173; \<open>Holding task\<close>
  after it has moved the front task out of the queue and released \<open>queue_mutex\<close>
  (line 179); \<open>Filling task result k\<close> after \<open>process_image\<close> has returned
  \<open>result\<close> and \<open>k\<close> of the six setters of lines 190 to 195 have run;
  \<open>Exited\<close> after the return of line 175.
\<close>

datatype 'tm worker_state =
  Idle | Holding OCRTask | Filling OCRTask "'tm OCRResult" nat | Exited

fun holding :: "'tm worker_state \<Rightarrow> OCRTask option" where
  "holding Idle = None"
| "holding (Holding task) = Some task"
| "holding (Filling task result k) = Some task"
| "holding Exited = None"

text \<open>
  The state of the whole server: the queue and the stop flag of the pool, the memory
  that holds the responses and the completion flags of the calls, and, for each worker
  thread (numbered), where it stands. Where a call of \<open>ProcessImage\<close> stands is
  in two fields: \<open>waiting\<close>, the calls that have enqueued their task and not yet
  returned, and \<open>woken\<close>, those of them that have seen their flag set and left the
  wait of line 260. Two fields record history: \<open>taken\<close>, the tasks in the order in
  which workers removed them from the queue, and \<open>written\<close>, for each call that has
  returned, its task, the response it wrote to the stream and the status it returned.
\<close>

record 'tm pool =
  tasks :: "OCRTask list"
  stop :: bool
  responses :: "addr \<Rightarrow> 'tm OCRResponse"
  completed_flags :: "addr \<Rightarrow> bool"
  workers :: "nat \<Rightarrow> 'tm worker_state"
  taken :: "OCRTask list"
  waiting :: "OCRTask list"
  woken :: "OCRTask list"
  written :: "(OCRTask \<times> 'tm OCRResponse \<times> Status) list"

definition new_pool :: "(addr \<Rightarrow> 'tm OCRResponse) \<Rightarrow> (addr \<Rightarrow> bool) \<Rightarrow> 'tm pool" where
  "new_pool mem flags =
     \<lparr>tasks = [], stop = False, responses = mem, completed_flags = flags,
      workers = (\<lambda>w. Idle), taken = [], waiting = [], woken = [], written = []\<rparr>"

text \<open>\<open>ThreadPool::enqueue\<close>: \<^verbatim>\<open>tasks.push(std::move(task))\<close> under the lock.\<close>

definition enqueue :: "OCRTask \<Rightarrow> 'tm pool \<Rightarrow> 'tm pool" where
  "enqueue task st = st\<lparr>tasks := tasks st @ [task]\<rparr>"

text \<open>Lines 189 to 195: the six setters on \<^verbatim>\<open>*task.response\<close>.\<close>

definition fill_response ::
  "ImageRequest \<Rightarrow> 'tm OCRResult \<Rightarrow> 'tm OCRResponse \<Rightarrow> 'tm OCRResponse" where
  "fill_response req result r =
     r\<lparr>resp_image_id := image_id req,
       resp_filename := filename req,
       extracted_text := ocr_text result,
       processing_time_ms := time_ms result,
       success := True,
       resp_processed_image := processed_image result\<rparr>"

text \<open>
  One turn of the loop of \<open>ThreadPool::worker\<close>, run without another thread in
  between. With an empty queue the worker waits, or returns when \<open>stop\<close> is set: the
  shared state stays as it is. Otherwise it takes the front task, processes the image,
  fills the response the task points to and sets the task's completion flag.
\<close>

definition worker :: "('pix, 'f, 'tm) env \<Rightarrow> 'tm pool \<Rightarrow> 'tm pool" where
  "worker env st =
     (case tasks st of
        [] \<Rightarrow> st
      | task # rest \<Rightarrow>
          let result = fst (process_image env (image_data (request task)))
          in st\<lparr>tasks := rest,
                taken := taken st @ [task],
                responses := (responses st)
                  (response task :=
                     fill_response (request task) result (responses st (response task))),
                completed_flags := (completed_flags st)(completed task := True)\<rparr>)"

text \<open>
  The same turn, in the steps at which other threads can come in between. Only the
  first runs under \<open>queue_mutex\<close>.

  Lines 171 to 179, worker \<open>w\<close> at the wait: with an empty queue it goes on
  waiting, or returns when \<open>stop\<close> is set; otherwise it moves the front task into its
  local variable.
\<close>

definition dequeue :: "nat \<Rightarrow> 'tm pool \<Rightarrow> 'tm pool" where
  "dequeue w st =
     (case workers st w of
        Idle \<Rightarrow>
          (case tasks st of
             [] \<Rightarrow> if stop st then st\<lparr>workers := (workers st)(w := Exited)\<rparr> else st
           | task # rest \<Rightarrow>
               st\<lparr>tasks := rest,
                  taken := taken st @ [task],
                  workers := (workers st)(w := Holding task)\<rparr>)
      | _ \<Rightarrow> st)"

text \<open>Lines 185 to 187: the call of \<open>process_image\<close>, on the worker's own data.\<close>

definition process_task :: "('pix, 'f, 'tm) env \<Rightarrow> nat \<Rightarrow> 'tm pool \<Rightarrow> 'tm pool" where
  "process_task env w st =
     (case workers st w of
        Holding task \<Rightarrow>
          st\<lparr>workers := (workers st)
               (w := Filling task (fst (process_image env (image_data (request task)))) 0)\<rparr>
      | _ \<Rightarrow> st)"

text \<open>The six setters of lines 190 to 195, in the order of the source, counted from 0.\<close>

definition setter ::
  "nat \<Rightarrow> ImageRequest \<Rightarrow> 'tm OCRResult \<Rightarrow> 'tm OCRResponse \<Rightarrow> 'tm OCRResponse" where
  "setter k req result r =
     (if k = 0 then r\<lparr>resp_image_id := image_id req\<rparr>
      else if k = 1 then r\<lparr>resp_filename := filename req\<rparr>
      else if k = 2 then r\<lparr>extracted_text := ocr_text result\<rparr>
      else if k = 3 then r\<lparr>processing_time_ms := time_ms result\<rparr>
      else if k = 4 then r\<lparr>success := True\<rparr>
      else if k = 5 then r\<lparr>resp_processed_image := processed_image result\<rparr>
      else r)"

text \<open>One setter: worker \<open>w\<close> writes the next field of the response of its task.\<close>

definition set_field :: "nat \<Rightarrow> 'tm pool \<Rightarrow> 'tm pool" where
  "set_field w st =
     (case workers st w of
        Filling task result k \<Rightarrow>
          if k < 6
          then st\<lparr>responses := (responses st)
                      (response task :=
                         setter k (request task) result (responses st (response task))),
                  workers := (workers st)(w := Filling task result (Suc k))\<rparr>
          else st
      | _ \<Rightarrow> st)"

text \<open>
  Lines 200 to 205, after the sixth setter: the worker sets the completion flag of its
  task under the mutex of the call and goes back to the wait.
\<close>

definition notify_completion :: "nat \<Rightarrow> 'tm pool \<Rightarrow> 'tm pool" where
  "notify_completion w st =
     (case workers st w of
        Filling task result k \<Rightarrow>
          if k = 6
          then st\<lparr>completed_flags := (completed_flags st)(completed task := True),
                  workers := (workers st)(w := Idle)\<rparr>
          else st
      | _ \<Rightarrow> st)"

text \<open>
  \<open>OCRServiceImpl::ProcessImage\<close>, lines 249 to 255: the flag of the call starts
  false and the task is enqueued. No other thread has the address of the flag before
  the task is in the queue, so the two lines are one step. The response of the call
  keeps what the memory held at its address; the worker sets its fields before the
  flag.
\<close>

definition ProcessImage_enqueue :: "OCRTask \<Rightarrow> 'tm pool \<Rightarrow> 'tm pool" where
  "ProcessImage_enqueue task st =
     enqueue task
       (st\<lparr>completed_flags := (completed_flags st)(completed task := False),
           waiting := task # waiting st\<rparr>)"

text \<open>
  Lines 257 to 268, run without another thread in between: the call waits until its
  flag is set, then writes its response to the stream and returns \<^verbatim>\<open>Status::OK\<close>.
  \<open>None\<close>: the call is still waiting.
\<close>

definition ProcessImage_return :: "OCRTask \<Rightarrow> 'tm pool \<Rightarrow> ('tm OCRResponse \<times> Status) option" where
  "ProcessImage_return task st =
     (if completed_flags st (completed task)
      then Some (responses st (response task), Status_OK)
      else None)"

text \<open>
  The same lines in two steps. Lines 257 to 261: a waiting call that finds its flag
  set, under the mutex of the call, leaves the wait.
\<close>

definition wake :: "OCRTask \<Rightarrow> 'tm pool \<Rightarrow> 'tm pool" where
  "wake task st =
     (if task \<in> set (waiting st) \<and> task \<notin> set (woken st) \<and>
         completed_flags st (completed task)
      then st\<lparr>woken := task # woken st\<rparr>
      else st)"

text \<open>
  Lines 263 to 268: a call that has left the wait writes its response, as it then is,
  to the stream and returns \<^verbatim>\<open>Status::OK\<close>.
\<close>

definition write_response :: "OCRTask \<Rightarrow> 'tm pool \<Rightarrow> 'tm pool" where
  "write_response task st =
     (if task \<in> set (woken st)
      then st\<lparr>waiting := remove1 task (waiting st),
              woken := remove1 task (woken st),
              written := written st @ [(task, responses st (response task), Status_OK)]\<rparr>
      else st)"

text \<open>
  The threads interleave: an event is one step of one thread, a call of
  \<open>ProcessImage\<close> or a worker of the pool, and a run is any sequence of events. A
  worker is named by its number; any number of workers may be at work, each between
  any two steps of the others. A step that a thread cannot take where it stands leaves
  the state as it is. The flag of a call is written and read under the mutex of the
  call, so what the worker wrote before it set the flag is what the call reads after
  it has seen the flag.
\<close>

datatype event =
  Call OCRTask | Take nat | Process nat | Fill nat | Notify nat
  | Wake OCRTask | Return OCRTask | Shutdown

fun step :: "('pix, 'f, 'tm) env \<Rightarrow> 'tm pool \<Rightarrow> event \<Rightarrow> 'tm pool" where
  "step env st (Call task) = ProcessImage_enqueue task st"
| "step env st (Take w) = dequeue w st"
| "step env st (Process w) = process_task env w st"
| "step env st (Fill w) = set_field w st"
| "step env st (Notify w) = notify_completion w st"
| "step env st (Wake task) = wake task st"
| "step env st (Return task) = write_response task st"
| "step env st Shutdown = st\<lparr>stop := True\<rparr>"

definition run :: "('pix, 'f, 'tm) env \<Rightarrow> event list \<Rightarrow> 'tm pool \<Rightarrow> 'tm pool" where
  "run env evs st = foldl (step env) st evs"

text \<open>The events of one whole turn of worker \<open>w\<close>.\<close>

definition turn :: "nat \<Rightarrow> event list" where
  "turn w = [Take w, Process w, Fill w, Fill w, Fill w, Fill w, Fill w, Fill w, Notify w]"

text \<open>The tasks that the calls of an event sequence enqueue, in order.\<close>

fun calls :: "event list \<Rightarrow> OCRTask list" where
  "calls [] = []"
| "calls (Call task # evs) = task # calls evs"
| "calls (_ # evs) = calls evs"

text \<open>
  A call of \<open>ProcessImage\<close> keeps its response and its flag in its own frame: while
  it waits, no other waiting call has the same response or the same flag. A later call
  may get the addresses of a call that has returned. \<open>calls_own_memory\<close> says so of
  every call of an event sequence, at the state in which the call is made.
\<close>

definition own_addresses :: "OCRTask \<Rightarrow> 'tm pool \<Rightarrow> bool" where
  "own_addresses task st \<longleftrightarrow>
     (\<forall>t \<in> set (waiting st).
        response t \<noteq> response task \<and> completed t \<noteq> completed task)"

fun calls_own_memory :: "('pix, 'f, 'tm) env \<Rightarrow> 'tm pool \<Rightarrow> event list \<Rightarrow> bool" where
  "calls_own_memory env st [] = True"
| "calls_own_memory env st (Call task # evs) =
     (own_addresses task st \<and> calls_own_memory env (step env st (Call task)) evs)"
| "calls_own_memory env st (e # evs) = calls_own_memory env (step env st e) evs"

text \<open>
  What a response must carry to belong to a task, and the invariant of the server that
  keeps it so. The waiting calls have different responses and different flags. The
  queue holds tasks of waiting calls, each once and with its flag still false. A task
  that a worker holds belongs to a waiting call, is no longer in the queue, is held by
  no other worker, and its flag is still false. A worker that has run the first setter
  has put the \<open>image_id\<close> of the request in the response of its task, and one that
  has run the second has put the \<open>filename\<close> there. A waiting call whose task is
  neither queued nor held finds its own identifiers in its response, and so did every
  call that has returned. A call that has left the wait is still among the waiting
  calls, once, and its flag is set.
\<close>

definition answers :: "OCRTask \<Rightarrow> 'tm OCRResponse \<Rightarrow> bool" where
  "answers task r \<longleftrightarrow>
     resp_image_id r = image_id (request task) \<and> resp_filename r = filename (request task)"

definition sound :: "'tm pool \<Rightarrow> bool" where
  "sound st \<longleftrightarrow>
     distinct (map response (waiting st)) \<and>
     distinct (map completed (waiting st)) \<and>
     distinct (tasks st) \<and>
     set (tasks st) \<subseteq> set (waiting st) \<and>
     (\<forall>task \<in> set (tasks st). \<not> completed_flags st (completed task)) \<and>
     (\<forall>w task. holding (workers st w) = Some task \<longrightarrow>
        task \<in> set (waiting st) \<and> task \<notin> set (tasks st) \<and>
        \<not> completed_flags st (completed task) \<and>
        (\<forall>w'. holding (workers st w') = Some task \<longrightarrow> w' = w)) \<and>
     (\<forall>w task result k. workers st w = Filling task result k \<longrightarrow>
        k \<le> 6 \<and>
        (1 \<le> k \<longrightarrow> resp_image_id (responses st (response task)) = image_id (request task)) \<and>
        (2 \<le> k \<longrightarrow> resp_filename (responses st (response task)) = filename (request task))) \<and>
     (\<forall>task \<in> set (waiting st).
        task \<notin> set (tasks st) \<and> (\<forall>w. holding (workers st w) \<noteq> Some task) \<longrightarrow>
        answers task (responses st (response task))) \<and>
     (\<forall>(task, r, status) \<in> set (written st). answers task r) \<and>
     distinct (woken st) \<and>
     set (woken st) \<subseteq> set (waiting st) \<and>
     (\<forall>task \<in> set (woken st). completed_flags st (completed task))"

subsection \<open>A small environment and three jobs, for evaluation\<close>

text \<open>
  A bitmap is the text printed on it. Every byte string but the empty one decodes, to
  itself; the three enhancement stages fail; in block mode the engine reads the bitmap
  as it is, in word mode it reads \<^verbatim>\<open>hello\<close>.
\<close>

definition demo_env :: "(string, int, nat) env" where
  "demo_env =
     \<lparr>Init_fails = False,
      pixRead = (\<lambda>b. if b = [] then None else Some b),
      pixConvertTo8 = (\<lambda>p. p),
      pixGetWidth = (\<lambda>p. 1000),
      pixGetHeight = (\<lambda>p. 1000),
      fdiv = (\<lambda>a b. a div b),
      fmax = max,
      pixScale = (\<lambda>p sx sy. p),
      pixUnsharpMaskingGray = (\<lambda>p. None),
      pixContrastNorm = (\<lambda>p. None),
      pixOtsuThreshOnBackgroundNorm = (\<lambda>p. None),
      encode_png = (\<lambda>p. p),
      recognize = (\<lambda>m p. case m of PSM_SINGLE_BLOCK \<Rightarrow> Some p
                                  | PSM_SINGLE_WORD \<Rightarrow> Some ''hello''),
      elapsed = 0\<rparr>"

definition demo_env_no_engine :: "(string, int, nat) env" where
  "demo_env_no_engine = demo_env\<lparr>Init_fails := True\<rparr>"

definition mem0 :: "addr \<Rightarrow> nat OCRResponse" where
  "mem0 = (\<lambda>a. \<lparr>resp_image_id = 0, resp_filename = [], extracted_text = [],
                 processing_time_ms = 0, success = False, resp_processed_image = []\<rparr>)"

definition flags0 :: "addr \<Rightarrow> bool" where
  "flags0 = (\<lambda>a. False)"

definition J1 :: OCRTask where
  "J1 = \<lparr>request = \<lparr>filename = ''one.png'', image_data = '' a'', batch_id = 1, image_id = 0\<rparr>,
         response = 1, completed = 11\<rparr>"

definition J2 :: OCRTask where
  "J2 = \<lparr>request = \<lparr>filename = ''two.png'', image_data = ''x'', batch_id = 1, image_id = 1\<rparr>,
         response = 2, completed = 12\<rparr>"

definition J3 :: OCRTask where
  "J3 = \<lparr>request = \<lparr>filename = ''three.png'', image_data = [], batch_id = 1, image_id = 2\<rparr>,
         response = 3, completed = 13\<rparr>"

text \<open>A fourth job, in the frame that the first call has left.\<close>

definition J4 :: OCRTask where
  "J4 = \<lparr>request = \<lparr>filename = ''four.png'', image_data = ''x'', batch_id = 2, image_id = 3\<rparr>,
         response = 1, completed = 11\<rparr>"

text \<open>
  Two workers, 0 and 1. Worker 0 takes the first job and worker 1 the second; their
  steps alternate, the second job is completed and returned first, the calls try to
  leave the wait before their flags are set, and the fourth job comes after the first
  call has returned.
\<close>

definition demo_events :: "event list" where
  "demo_events =
     [Call J1, Call J2, Take 0, Take 1, Process 1, Process 0, Fill 0, Fill 1, Fill 1,
      Call J3, Fill 0, Fill 1, Fill 1, Fill 1, Fill 1, Wake J2, Return J2, Notify 1,
      Wake J1, Wake J2, Fill 0, Return J2, Fill 0, Take 1, Fill 0, Fill 0, Process 1,
      Notify 0, Wake J1, Return J1]
     @ tl (tl (turn 1)) @ [Wake J3, Return J3, Call J4] @ turn 0 @ [Wake J4, Return J4]"

text \<open>One worker, which takes three jobs submitted in the order J1, J2, J3.\<close>

definition demo_single :: "event list" where
  "demo_single = [Call J1, Call J2] @ turn 0 @ [Call J3] @ turn 0 @ turn 0"

section \<open>Properties\<close>

subsection \<open>Positions and trimming\<close>

lemma find_first_not_of_None:
  "find_first_not_of s cs = None \<longleftrightarrow> set s \<subseteq> set cs"
  by (induction s) auto

lemma find_last_not_of_None:
  "find_last_not_of s cs = None \<longleftrightarrow> set s \<subseteq> set cs"
  by (induction s) (auto split: option.splits)

lemma find_first_not_of_less:
  "find_first_not_of s cs = Some a \<Longrightarrow> a < length s \<and> s ! a \<notin> set cs"
  by (induction s arbitrary: a) (auto split: if_splits)

lemma find_first_le_last:
  "find_first_not_of s cs = Some a \<Longrightarrow> find_last_not_of s cs = Some e \<Longrightarrow> a \<le> e"
proof (induction s arbitrary: a e)
  case Nil
  then show ?case by simp
next
  case (Cons x xs)
  show ?case
  proof (cases "x \<in> set cs")
    case True
    with Cons.prems obtain a' where a': "find_first_not_of xs cs = Some a'" "a = Suc a'"
      by auto
    with Cons.prems True obtain e' where e': "find_last_not_of xs cs = Some e'" "e = Suc e'"
      by (auto split: option.splits)
    from Cons.IH [OF a'(1) e'(1)] a'(2) e'(2) show ?thesis by simp
  next
    case False
    with Cons.prems show ?thesis by simp
  qed
qed

lemma take_find_last:
  "find_last_not_of s cs = Some e \<Longrightarrow>
   take (Suc e) s = rev (dropWhile (\<lambda>c. c \<in> set cs) (rev s))"
proof (induction s arbitrary: e)
  case Nil
  then show ?case by simp
next
  case (Cons x xs)
  show ?case
  proof (cases "find_last_not_of xs cs")
    case None
    then have "set xs \<subseteq> set cs" by (simp add: find_last_not_of_None)
    then have all: "\<forall>c\<in>set (rev xs). c \<in> set cs" by auto
    from None Cons.prems have "x \<notin> set cs" "e = 0" by (auto split: if_splits)
    have "dropWhile (\<lambda>c. c \<in> set cs) (rev xs @ [x]) = dropWhile (\<lambda>c. c \<in> set cs) [x]"
      using all by (intro dropWhile_append2) simp
    with \<open>x \<notin> set cs\<close> \<open>e = 0\<close> show ?thesis by simp
  next
    case (Some i)
    then have "\<not> set xs \<subseteq> set cs" by (simp flip: find_last_not_of_None)
    then obtain c where c: "c \<in> set (rev xs)" "\<not> c \<in> set cs" by auto
    from Some Cons.prems have e: "e = Suc i" by simp
    from c have "dropWhile (\<lambda>c. c \<in> set cs) (rev xs @ [x])
        = dropWhile (\<lambda>c. c \<in> set cs) (rev xs) @ [x]"
      by (rule dropWhile_append1)
    with Cons.IH [OF Some] e show ?thesis by simp
  qed
qed

lemma dropWhile_take_find_first:
  "find_first_not_of s cs = Some a \<Longrightarrow> a < n \<Longrightarrow>
   dropWhile (\<lambda>c. c \<in> set cs) (take n s) = drop a (take n s)"
proof (induction s arbitrary: a n)
  case Nil
  then show ?case by simp
next
  case (Cons x xs)
  then show ?case by (cases n) (auto split: if_splits)
qed

lemma substr_trim:
  assumes "find_first_not_of s cs = Some a" and "find_last_not_of s cs = Some e"
  shows "substr s a (e - a + 1)
     = dropWhile (\<lambda>c. c \<in> set cs) (rev (dropWhile (\<lambda>c. c \<in> set cs) (rev s)))"
proof -
  from assms have le: "a \<le> e" by (rule find_first_le_last)
  have "substr s a (e - a + 1) = drop a (take (Suc e) s)"
    using le by (simp add: substr_def drop_take Suc_diff_le)
  also have "\<dots> = dropWhile (\<lambda>c. c \<in> set cs) (take (Suc e) s)"
    using dropWhile_take_find_first [OF assms(1), of "Suc e"] le by simp
  also have "take (Suc e) s = rev (dropWhile (\<lambda>c. c \<in> set cs) (rev s))"
    using assms(2) by (rule take_find_last)
  finally show ?thesis .
qed

lemma blank_set: "(\<lambda>c. c \<in> set '' \<newline>'') = is_blank"
  by (auto simp: is_blank_def fun_eq_iff)

lemma trim_src:
  "(case (find_first_not_of s '' \<newline>'', find_last_not_of s '' \<newline>'') of
      (Some a, Some e) \<Rightarrow> substr s a (e - a + 1) | _ \<Rightarrow> [])
   = spec_trim s"
proof (cases "find_first_not_of s '' \<newline>''")
  case None
  then have "set s \<subseteq> set '' \<newline>''" by (simp only: find_first_not_of_None)
  then have "\<forall>c\<in>set s. is_blank c" by (auto simp: is_blank_def)
  then have dw: "dropWhile is_blank (rev s) = []" by simp
  show ?thesis unfolding spec_trim_def dw using None by simp
next
  case (Some a)
  then have "\<not> set s \<subseteq> set '' \<newline>''" by (simp only: find_first_not_of_None [symmetric]) simp
  then obtain e where e: "find_last_not_of s '' \<newline>'' = Some e"
    using find_last_not_of_None [of s "'' \<newline>''"] by (cases "find_last_not_of s '' \<newline>''") auto
  show ?thesis using substr_trim [OF Some e] Some e
    by (simp only: blank_set spec_trim_def prod.case option.case)
qed


lemma junk_CR_TAB: "is_junk (CHR 0x0D)" "is_junk (CHR 0x09)"
  by (simp_all add: is_junk_def)

lemma remove_chr_junk: "is_junk x \<Longrightarrow> remove_chr x (remove_if is_junk s) = remove_if is_junk s"
  by (auto simp: remove_chr_def remove_if_def intro: filter_cong)

lemma spec_stripped_iff: "spec_stripped c \<longleftrightarrow> is_junk c \<or> c = CHR 0x7F"
proof -
  have "(of_char c :: nat) = 127 \<longleftrightarrow> c = CHR 0x7F"
    using of_char_eq_iff [of c "CHR 0x7F", where ?'a = nat] by simp
  then show ?thesis
    by (auto simp: spec_stripped_def is_junk_def is_control_def)
qed

lemma clean_up_trim: "clean_up (remove_if is_junk s) =
   (let t = spec_trim (remove_if is_junk s) in if t = [] then ''[UNREADABLE]'' else t)"
  unfolding clean_up_def Let_def by (simp only: remove_chr_junk junk_CR_TAB trim_src)

lemma sanitize_trim:
  "sanitize raw =
     (let t = spec_trim (remove_if is_junk raw) in if t = [] then ''[UNREADABLE]'' else t)"
  by (simp only: sanitize_def clean_up_trim)

lemma remove_junk_kept:
  "remove_if is_junk raw =
     filter (\<lambda>c. (of_char c :: nat) \<le> 127 \<and> (32 \<le> (of_char c :: nat) \<or> c = CHR ''\<newline>'')) raw"
  unfolding remove_if_def
  by (rule filter_cong) (auto simp: is_junk_def)

lemma spec_filter_without_DEL:
  "CHR 0x7F \<notin> set raw \<Longrightarrow> filter (\<lambda>c. \<not> spec_stripped c) raw = remove_if is_junk raw"
  unfolding remove_if_def
  by (rule filter_cong) (auto simp: spec_stripped_iff)

lemma sanitize_spec_sanitize: "CHR 0x7F \<notin> set raw \<Longrightarrow> sanitize raw = spec_sanitize raw"
  by (simp add: sanitize_trim spec_sanitize_def spec_filter_without_DEL)

lemma spec_trim_idem: "spec_trim (spec_trim s) = spec_trim s"
proof (cases "spec_trim s = []")
  case True
  show ?thesis unfolding True by (simp add: spec_trim_def)
next
  case False
  define u where "u = dropWhile is_blank (rev s)"
  define t where "t = dropWhile is_blank (rev u)"
  have t: "spec_trim s = t" by (simp add: spec_trim_def t_def u_def)
  with False have tne: "t \<noteq> []" by simp
  then have une: "u \<noteq> []" by (auto simp: t_def)
  have "\<not> is_blank (hd t)" using tne unfolding t_def by (rule hd_dropWhile)
  then have front: "dropWhile is_blank t = t" by (simp add: dropWhile_eq_self_iff)
  have "\<not> is_blank (hd u)" using une unfolding u_def by (rule hd_dropWhile)
  then have lu: "\<not> is_blank (last (rev u))" using une by (simp add: last_rev)
  from tne obtain x where x: "x \<in> set (rev u)" "\<not> is_blank x"
    unfolding t_def by auto
  from x have "last t = last (rev u)" unfolding t_def by (rule dropWhile_last)
  with lu tne have "\<not> is_blank (hd (rev t))" by (simp add: hd_rev)
  then have rear: "dropWhile is_blank (rev t) = rev t" by (simp add: dropWhile_eq_self_iff)
  have "spec_trim t = t" by (simp add: spec_trim_def rear front)
  with t show ?thesis by simp
qed

lemma set_spec_trim: "set (spec_trim s) \<subseteq> set s"
proof -
  have "set (spec_trim s) \<subseteq> set (rev (dropWhile is_blank (rev s)))"
    unfolding spec_trim_def by (rule set_dropWhileD [THEN subsetI])
  also have "\<dots> \<subseteq> set s" by (auto dest: set_dropWhileD)
  finally show ?thesis .
qed

lemma sanitize_sentinel: "sanitize ''[UNREADABLE]'' = ''[UNREADABLE]''"
  by (simp add: sanitize_def clean_up_def remove_if_def remove_chr_def is_junk_def substr_def)

lemma sanitize_twice: "sanitize (sanitize s) = sanitize s"
proof (cases "spec_trim (remove_if is_junk s) = []")
  case True
  then have "sanitize s = ''[UNREADABLE]''" by (simp add: sanitize_def clean_up_trim)
  then show ?thesis by (simp add: sanitize_sentinel)
next
  case False
  define t where "t = spec_trim (remove_if is_junk s)"
  from False have s: "sanitize s = t" by (simp add: sanitize_def clean_up_trim t_def)
  have "set t \<subseteq> set (remove_if is_junk s)" unfolding t_def by (rule set_spec_trim)
  then have "\<forall>c\<in>set t. \<not> is_junk c" by (auto simp: remove_if_def)
  then have keep: "remove_if is_junk t = t" by (simp add: remove_if_def)
  have idem: "spec_trim t = t" unfolding t_def by (rule spec_trim_idem)
  from False have "t \<noteq> []" by (simp add: t_def)
  have "sanitize t = (let r = spec_trim (remove_if is_junk t) in if r = [] then ''[UNREADABLE]'' else r)"
    by (simp only: sanitize_def clean_up_trim)
  with \<open>t \<noteq> []\<close> have "sanitize t = t" by (simp add: keep idem)
  with s show ?thesis by simp
qed

subsection \<open>The four ways through \<open>process_image\<close>\<close>

lemma process_image_no_engine:
  "Init_fails env \<Longrightarrow> process_image env d =
     (\<lparr>ocr_text = ''[ERROR: Tesseract initialization failed]'',
       time_ms = elapsed env, processed_image = []\<rparr>, [])"
  by (simp add: process_image_def)

lemma process_image_no_bitmap:
  "\<not> Init_fails env \<Longrightarrow> pixRead env d = None \<Longrightarrow> process_image env d =
     (\<lparr>ocr_text = ''[ERROR: Unable to open image]'',
       time_ms = elapsed env, processed_image = []\<rparr>, [])"
  by (simp add: process_image_def SetPageSegMode_def Init_api_def)

lemma process_image_retry:
  assumes "\<not> Init_fails env" and "pixRead env d = Some img"
    and "length (remove_if is_junk (text_or_empty (recognize env PSM_SINGLE_BLOCK (final_image env img)))) < 2"
  shows "process_image env d =
     (\<lparr>ocr_text = sanitize (text_or_empty (recognize env PSM_SINGLE_WORD (final_image env img))),
       time_ms = elapsed env, processed_image = encode_png env (final_image env img)\<rparr>,
      [(PSM_SINGLE_BLOCK, final_image env img), (PSM_SINGLE_WORD, final_image env img)])"
  using assms
  by (simp add: process_image_def SetPageSegMode_def SetImage_def Init_api_def
      GetUTF8Text_def sanitize_def Let_def)

lemma process_image_no_retry:
  assumes "\<not> Init_fails env" and "pixRead env d = Some img"
    and "\<not> length (remove_if is_junk (text_or_empty (recognize env PSM_SINGLE_BLOCK (final_image env img)))) < 2"
  shows "process_image env d =
     (\<lparr>ocr_text = sanitize (text_or_empty (recognize env PSM_SINGLE_BLOCK (final_image env img))),
       time_ms = elapsed env, processed_image = encode_png env (final_image env img)\<rparr>,
      [(PSM_SINGLE_BLOCK, final_image env img)])"
  using assms
  by (auto simp add: process_image_def SetPageSegMode_def SetImage_def Init_api_def
      GetUTF8Text_def sanitize_def Let_def)

lemma process_image_cases:
  "process_image env d =
     (if Init_fails env then
        (\<lparr>ocr_text = ''[ERROR: Tesseract initialization failed]'',
          time_ms = elapsed env, processed_image = []\<rparr>, [])
      else case pixRead env d of
        None \<Rightarrow> (\<lparr>ocr_text = ''[ERROR: Unable to open image]'',
                   time_ms = elapsed env, processed_image = []\<rparr>, [])
      | Some img \<Rightarrow>
          (let final = final_image env img;
               block = remove_if is_junk (text_or_empty (recognize env PSM_SINGLE_BLOCK final))
           in if length block < 2
              then (\<lparr>ocr_text = sanitize (text_or_empty (recognize env PSM_SINGLE_WORD final)),
                     time_ms = elapsed env, processed_image = encode_png env final\<rparr>,
                    [(PSM_SINGLE_BLOCK, final), (PSM_SINGLE_WORD, final)])
              else (\<lparr>ocr_text = sanitize (text_or_empty (recognize env PSM_SINGLE_BLOCK final)),
                     time_ms = elapsed env, processed_image = encode_png env final\<rparr>,
                    [(PSM_SINGLE_BLOCK, final)])))"
  by (simp add: process_image_no_engine process_image_no_bitmap process_image_retry
      process_image_no_retry Let_def split: option.split)

lemma sanitize_not_empty: "sanitize raw \<noteq> []"
  by (simp add: sanitize_def clean_up_trim Let_def)

lemma sanitize_cases:
  "sanitize raw = ''[UNREADABLE]'' \<or> sanitize raw = spec_trim (remove_if is_junk raw)"
  by (simp add: sanitize_def clean_up_trim Let_def)

subsection \<open>The scaling stage\<close>

lemma upscale_if_small_large:
  "500 \<le> pixGetWidth env gray \<Longrightarrow> 250 \<le> pixGetHeight env gray \<Longrightarrow>
   upscale_if_small env gray = gray"
  by (simp add: upscale_if_small_def Let_def)

lemma upscale_if_small_small:
  "pixGetWidth env gray < 500 \<or> pixGetHeight env gray < 250 \<Longrightarrow>
   upscale_if_small env gray =
     pixScale env gray
       (fmax env (fdiv env 500 (pixGetWidth env gray)) (fdiv env 250 (pixGetHeight env gray)))
       (fmax env (fdiv env 500 (pixGetWidth env gray)) (fdiv env 250 (pixGetHeight env gray)))"
  by (simp add: upscale_if_small_def Let_def)

subsection \<open>The worker and the runs of the pool\<close>

lemma worker_front:
  "tasks st = task # rest \<Longrightarrow>
   worker env st =
     st\<lparr>tasks := rest,
        taken := taken st @ [task],
        responses := (responses st)
          (response task :=
             fill_response (request task)
               (fst (process_image env (image_data (request task))))
               (responses st (response task))),
        completed_flags := (completed_flags st)(completed task := True)\<rparr>"
  by (simp add: worker_def Let_def)

lemma worker_idle: "tasks st = [] \<Longrightarrow> worker env st = st"
  by (simp add: worker_def)

lemma run_snoc: "run env (evs @ [e]) st = step env (run env evs st) e"
  by (simp add: run_def)

lemma run_Cons: "run env (e # evs) st = run env evs (step env st e)"
  by (simp add: run_def)

lemma run_append: "run env (evs @ evs') st = run env evs' (run env evs st)"
  by (simp add: run_def)

lemma calls_append: "calls (evs @ evs') = calls evs @ calls evs'"
  by (induction evs rule: calls.induct) simp_all

lemma fill_response_setters:
  "fill_response req result r =
     setter 5 req result (setter 4 req result (setter 3 req result
       (setter 2 req result (setter 1 req result (setter 0 req result r)))))"
  by (simp add: fill_response_def setter_def)

lemma worker_uninterrupted:
  assumes "workers st w = Idle" and "tasks st \<noteq> []"
  shows "run env (turn w) st = worker env st"
proof -
  from assms(2) obtain task rest where q: "tasks st = task # rest" by (cases "tasks st") auto
  have upd: "(workers st)(w := Idle) = workers st" using assms(1) by (simp add: fun_upd_idem)
  show ?thesis
    by (simp add: run_def turn_def worker_front [OF q] dequeue_def process_task_def
        set_field_def notify_completion_def assms(1) q fill_response_def setter_def upd)
qed

lemma step_order:
  "taken (step env st e) @ tasks (step env st e) = (taken st @ tasks st) @ calls [e]"
proof (cases e)
  case (Call task)
  then show ?thesis by (simp add: ProcessImage_enqueue_def enqueue_def)
next
  case (Take w)
  then show ?thesis
    by (simp add: dequeue_def split: worker_state.split list.split)
next
  case (Process w)
  then show ?thesis by (simp add: process_task_def split: worker_state.split)
next
  case (Fill w)
  then show ?thesis by (simp add: set_field_def split: worker_state.split)
next
  case (Notify w)
  then show ?thesis by (simp add: notify_completion_def split: worker_state.split)
next
  case (Wake task)
  then show ?thesis by (simp add: wake_def)
next
  case (Return task)
  then show ?thesis by (simp add: write_response_def)
next
  case Shutdown
  then show ?thesis by simp
qed

lemma run_order:
  "taken (run env evs st) @ tasks (run env evs st) = (taken st @ tasks st) @ calls evs"
proof (induction evs rule: rev_induct)
  case Nil
  show ?case by (simp add: run_def)
next
  case (snoc e evs)
  then show ?case by (simp add: run_snoc step_order calls_append del: append_assoc)
qed

subsection \<open>The invariant of the server\<close>

lemma sound_new: "sound (new_pool mem flags)"
  by (simp add: sound_def new_pool_def)

lemma soundI:
  assumes "distinct (map response (waiting st))"
    and "distinct (map completed (waiting st))"
    and "distinct (tasks st)"
    and "set (tasks st) \<subseteq> set (waiting st)"
    and "\<And>task. task \<in> set (tasks st) \<Longrightarrow> \<not> completed_flags st (completed task)"
    and "\<And>w task. holding (workers st w) = Some task \<Longrightarrow>
           task \<in> set (waiting st) \<and> task \<notin> set (tasks st) \<and>
           \<not> completed_flags st (completed task)"
    and "\<And>w w' task. holding (workers st w) = Some task \<Longrightarrow>
           holding (workers st w') = Some task \<Longrightarrow> w' = w"
    and "\<And>w task result k. workers st w = Filling task result k \<Longrightarrow>
           k \<le> 6 \<and>
           (1 \<le> k \<longrightarrow> resp_image_id (responses st (response task)) = image_id (request task)) \<and>
           (2 \<le> k \<longrightarrow> resp_filename (responses st (response task)) = filename (request task))"
    and "\<And>task. task \<in> set (waiting st) \<Longrightarrow> task \<notin> set (tasks st) \<Longrightarrow>
           (\<And>w. holding (workers st w) \<noteq> Some task) \<Longrightarrow>
           answers task (responses st (response task))"
    and "\<And>task r status. (task, r, status) \<in> set (written st) \<Longrightarrow> answers task r"
    and "distinct (woken st)"
    and "set (woken st) \<subseteq> set (waiting st)"
    and "\<And>task. task \<in> set (woken st) \<Longrightarrow> completed_flags st (completed task)"
  shows "sound st"
  unfolding sound_def using assms by blast

lemma sound_waiting:
  assumes "sound st"
  shows "distinct (map response (waiting st))" and "distinct (map completed (waiting st))"
    and "distinct (waiting st)"
  using assms by (auto simp: sound_def distinct_map)

lemma sound_apart:
  assumes "sound st" and "t \<in> set (waiting st)" and "t' \<in> set (waiting st)" and "t \<noteq> t'"
  shows "response t \<noteq> response t'" and "completed t \<noteq> completed t'"
  using assms by (auto simp: sound_def distinct_map inj_on_def)

lemma sound_queue:
  assumes "sound st"
  shows "distinct (tasks st)" and "set (tasks st) \<subseteq> set (waiting st)"
  using assms by (auto simp: sound_def)

lemma sound_queued:
  assumes "sound st" and "task \<in> set (tasks st)"
  shows "task \<in> set (waiting st)" and "\<not> completed_flags st (completed task)"
  using assms unfolding sound_def by blast+

lemma sound_held:
  assumes "sound st" and "holding (workers st w) = Some task"
  shows "task \<in> set (waiting st)" and "task \<notin> set (tasks st)"
    and "\<not> completed_flags st (completed task)"
  using assms unfolding sound_def by blast+

lemma sound_held_once:
  assumes "sound st" and "holding (workers st w) = Some task"
    and "holding (workers st w') = Some task"
  shows "w' = w"
  using assms unfolding sound_def by blast

lemma sound_filling:
  assumes "sound st" and "workers st w = Filling task result k"
  shows "k \<le> 6"
    and "1 \<le> k \<Longrightarrow> resp_image_id (responses st (response task)) = image_id (request task)"
    and "2 \<le> k \<Longrightarrow> resp_filename (responses st (response task)) = filename (request task)"
  using assms unfolding sound_def by blast+

lemma sound_done:
  assumes "sound st" and "task \<in> set (waiting st)" and "task \<notin> set (tasks st)"
    and "\<And>w. holding (workers st w) \<noteq> Some task"
  shows "answers task (responses st (response task))"
  using assms unfolding sound_def by blast

lemma sound_written:
  assumes "sound st" and "(task, r, status) \<in> set (written st)"
  shows "answers task r"
  using assms unfolding sound_def by blast

lemma sound_woken:
  assumes "sound st"
  shows "distinct (woken st)" and "set (woken st) \<subseteq> set (waiting st)"
    and "task \<in> set (woken st) \<Longrightarrow> completed_flags st (completed task)"
  using assms unfolding sound_def by blast+

lemma sound_process_task:
  assumes "sound st"
  shows "sound (process_task env w st)"
proof (cases "workers st w")
  case (Holding task)
  let ?r = "fst (process_image env (image_data (request task)))"
  let ?st = "process_task env w st"
  have st: "tasks ?st = tasks st" "waiting ?st = waiting st" "written ?st = written st"
    "responses ?st = responses st" "completed_flags ?st = completed_flags st"
    "workers ?st = (workers st)(w := Filling task ?r 0)" "woken ?st = woken st"
    by (simp_all add: process_task_def Holding)
  have h: "holding (workers ?st v) = holding (workers st v)" for v
    by (simp add: st Holding)
  show ?thesis
  proof (rule soundI)
    fix v t res k
    assume "workers ?st v = Filling t res k"
    then have "k = 0 \<or> workers st v = Filling t res k"
      by (auto simp: st split: if_splits)
    then show "k \<le> 6 \<and>
        (1 \<le> k \<longrightarrow> resp_image_id (responses ?st (response t)) = image_id (request t)) \<and>
        (2 \<le> k \<longrightarrow> resp_filename (responses ?st (response t)) = filename (request t))"
      using sound_filling [OF assms, of v t res k] by (auto simp: st)
  next
    fix t assume "t \<in> set (waiting ?st)" "t \<notin> set (tasks ?st)"
      "\<And>v. holding (workers ?st v) \<noteq> Some t"
    then show "answers t (responses ?st (response t))"
      using sound_done [OF assms, of t] by (simp add: st(1-5) h)
  qed (use assms in \<open>auto simp: st(1-5) st(7) h sound_waiting sound_queue sound_woken
      dest: sound_queued sound_held sound_written sound_held_once\<close>)
qed (use assms in \<open>simp_all add: process_task_def\<close>)


lemma sound_dequeue:
  assumes "sound st"
  shows "sound (dequeue w st)"
proof (cases "workers st w")
  case Idle
  show ?thesis
  proof (cases "tasks st")
    case Nil
    show ?thesis
    proof (cases "stop st")
      case False
      with assms Idle Nil show ?thesis by (simp add: dequeue_def)
    next
      case True
      let ?st = "dequeue w st"
      have st: "tasks ?st = tasks st" "waiting ?st = waiting st" "written ?st = written st"
        "responses ?st = responses st" "completed_flags ?st = completed_flags st"
        "workers ?st = (workers st)(w := Exited)" "woken ?st = woken st"
        by (simp_all add: dequeue_def Idle Nil True)
      have h: "holding (workers ?st v) = holding (workers st v)" for v
        by (simp add: st Idle)
      show ?thesis
      proof (rule soundI)
        fix v t res k
        assume "workers ?st v = Filling t res k"
        then have "workers st v = Filling t res k"
          by (auto simp: st split: if_splits)
        then show "k \<le> 6 \<and>
            (1 \<le> k \<longrightarrow> resp_image_id (responses ?st (response t)) = image_id (request t)) \<and>
            (2 \<le> k \<longrightarrow> resp_filename (responses ?st (response t)) = filename (request t))"
          using sound_filling [OF assms, of v t res k] by (auto simp: st)
      next
        fix t assume "t \<in> set (waiting ?st)" "t \<notin> set (tasks ?st)"
          "\<And>v. holding (workers ?st v) \<noteq> Some t"
        then show "answers t (responses ?st (response t))"
          using sound_done [OF assms, of t] by (simp add: st(1-5) h)
      qed (use assms in \<open>auto simp: st(1-5) st(7) h sound_waiting sound_queue sound_woken
          dest: sound_queued sound_held sound_written sound_held_once\<close>)
    qed
  next
    case (Cons task rest)
    let ?st = "dequeue w st"
    have st: "tasks ?st = rest" "waiting ?st = waiting st" "written ?st = written st"
      "responses ?st = responses st" "completed_flags ?st = completed_flags st"
      "workers ?st = (workers st)(w := Holding task)" "woken ?st = woken st"
      by (simp_all add: dequeue_def Idle Cons)
    have h: "holding (workers ?st v) = (if v = w then Some task else holding (workers st v))"
      for v
      by (simp add: st)
    from sound_queue [OF assms] Cons have rest: "task \<notin> set rest" "distinct rest"
      "set rest \<subseteq> set (waiting st)" "task \<in> set (waiting st)"
      by auto
    from sound_queued(2) [OF assms, of task] Cons
    have open_task: "\<not> completed_flags st (completed task)" by simp
    have unheld: "holding (workers st v) \<noteq> Some task" for v
      using sound_held(2) [OF assms, of v task] Cons by auto
    show ?thesis
    proof (rule soundI)
      show "distinct (tasks ?st)" by (simp add: st rest)
      show "set (tasks ?st) \<subseteq> set (waiting ?st)" by (simp add: st rest)
      show "\<not> completed_flags ?st (completed t)" if "t \<in> set (tasks ?st)" for t
        using that sound_queued(2) [OF assms, of t] Cons by (simp add: st)
      show "t \<in> set (waiting ?st) \<and> t \<notin> set (tasks ?st) \<and>
          \<not> completed_flags ?st (completed t)"
        if "holding (workers ?st v) = Some t" for v t
      proof (cases "v = w")
        case True
        with that have "t = task" by (simp add: h)
        with rest open_task show ?thesis by (simp add: st)
      next
        case False
        with that have "holding (workers st v) = Some t" by (simp add: h)
        from sound_held [OF assms this] Cons show ?thesis by (simp add: st)
      qed
      show "v' = v"
        if "holding (workers ?st v) = Some t" "holding (workers ?st v') = Some t" for v v' t
        using that unheld sound_held_once [OF assms, of v t v']
        by (auto simp: h split: if_splits)
      show "k \<le> 6 \<and>
          (1 \<le> k \<longrightarrow> resp_image_id (responses ?st (response t)) = image_id (request t)) \<and>
          (2 \<le> k \<longrightarrow> resp_filename (responses ?st (response t)) = filename (request t))"
        if "workers ?st v = Filling t res k" for v t res k
      proof -
        from that have "workers st v = Filling t res k"
          by (auto simp: st split: if_splits)
        then show ?thesis using sound_filling [OF assms, of v t res k] by (auto simp: st)
      qed
      show "answers t (responses ?st (response t))"
        if "t \<in> set (waiting ?st)" "t \<notin> set (tasks ?st)"
          "\<And>v. holding (workers ?st v) \<noteq> Some t" for t
      proof -
        from that(3) [of w] have ne: "t \<noteq> task" by (auto simp: h)
        with that(2) Cons have "t \<notin> set (tasks st)" by (simp add: st)
        moreover have "holding (workers st v) \<noteq> Some t" for v
          using that(3) [of v] Idle by (cases "v = w") (simp_all add: h)
        ultimately show ?thesis using sound_done [OF assms, of t] that(1) by (simp add: st)
      qed
    qed (use assms in \<open>auto simp: st sound_waiting sound_woken dest: sound_written\<close>)
  qed
qed (use assms in \<open>simp_all add: dequeue_def\<close>)

lemma setter_ids:
  "resp_image_id (setter k req result r) = (if k = 0 then image_id req else resp_image_id r)"
  "resp_filename (setter k req result r) = (if k = 1 then filename req else resp_filename r)"
  by (simp_all add: setter_def)

lemma sound_set_field:
  assumes "sound st"
  shows "sound (set_field w st)"
proof (cases "workers st w")
  case (Filling task result k)
  show ?thesis
  proof (cases "k < 6")
    case False
    with assms Filling show ?thesis by (simp add: set_field_def)
  next
    case True
    let ?st = "set_field w st"
    have st: "tasks ?st = tasks st" "waiting ?st = waiting st" "written ?st = written st"
      "completed_flags ?st = completed_flags st"
      "responses ?st = (responses st)
         (response task := setter k (request task) result (responses st (response task)))"
      "workers ?st = (workers st)(w := Filling task result (Suc k))" "woken ?st = woken st"
      by (simp_all add: set_field_def Filling True)
    have h: "holding (workers ?st v) = holding (workers st v)" for v
      by (simp add: st Filling)
    have mine: "holding (workers st w) = Some task" by (simp add: Filling)
    note task = sound_held [OF assms mine]
    have other: "responses ?st (response t) = responses st (response t)"
      if "t \<in> set (waiting st)" "t \<noteq> task" for t
      using sound_apart(1) [OF assms that(1) task(1) that(2)] by (simp add: st)
    show ?thesis
    proof (rule soundI)
      show "k' \<le> 6 \<and>
          (1 \<le> k' \<longrightarrow> resp_image_id (responses ?st (response t)) = image_id (request t)) \<and>
          (2 \<le> k' \<longrightarrow> resp_filename (responses ?st (response t)) = filename (request t))"
        if "workers ?st v = Filling t res k'" for v t res k'
      proof (cases "v = w")
        case True
        with that have eq: "t = task" "k' = Suc k" by (simp_all add: st)
        from sound_filling [OF assms Filling] \<open>k < 6\<close> show ?thesis
          by (auto simp: eq st setter_ids)
      next
        case False
        with that have old: "workers st v = Filling t res k'" by (simp add: st)
        then have held: "holding (workers st v) = Some t" by simp
        have "t \<noteq> task"
        proof
          assume "t = task"
          with held sound_held_once [OF assms mine, of v] have "v = w" by simp
          with False show False ..
        qed
        from other [OF sound_held(1) [OF assms held] this] sound_filling [OF assms old]
        show ?thesis by simp
      qed
      show "answers t (responses ?st (response t))"
        if "t \<in> set (waiting ?st)" "t \<notin> set (tasks ?st)"
          "\<And>v. holding (workers ?st v) \<noteq> Some t" for t
      proof -
        from that(3) [of w] mine have ne: "t \<noteq> task" by (auto simp: h)
        have "holding (workers st v) \<noteq> Some t" for v using that(3) [of v] by (simp add: h)
        with sound_done [OF assms, of t] that(1,2) have "answers t (responses st (response t))"
          by (simp add: st)
        with other [OF _ ne] that(1) show ?thesis by (simp add: st)
      qed
    qed (use assms in \<open>auto simp: st(1-4) st(7) h sound_waiting sound_queue sound_woken
        dest: sound_queued sound_held sound_written sound_held_once\<close>)
  qed
qed (use assms in \<open>simp_all add: set_field_def\<close>)


lemma sound_notify_completion:
  assumes "sound st"
  shows "sound (notify_completion w st)"
proof (cases "workers st w")
  case (Filling task result k)
  show ?thesis
  proof (cases "k = 6")
    case False
    with assms Filling show ?thesis by (simp add: notify_completion_def)
  next
    case True
    let ?st = "notify_completion w st"
    have st: "tasks ?st = tasks st" "waiting ?st = waiting st" "written ?st = written st"
      "responses ?st = responses st"
      "completed_flags ?st = (completed_flags st)(completed task := True)"
      "workers ?st = (workers st)(w := Idle)" "woken ?st = woken st"
      by (simp_all add: notify_completion_def Filling True)
    have h: "holding (workers ?st v) = (if v = w then None else holding (workers st v))" for v
      by (simp add: st)
    have mine: "holding (workers st w) = Some task" by (simp add: Filling)
    note task = sound_held [OF assms mine]
    have other: "completed_flags ?st (completed t) = completed_flags st (completed t)"
      if "t \<in> set (waiting st)" "t \<noteq> task" for t
      using sound_apart(2) [OF assms that(1) task(1) that(2)] by (simp add: st)
    show ?thesis
    proof (rule soundI)
      show "\<not> completed_flags ?st (completed t)" if "t \<in> set (tasks ?st)" for t
      proof -
        from that have q: "t \<in> set (tasks st)" by (simp add: st)
        with task(2) have "t \<noteq> task" by auto
        from other [OF sound_queued(1) [OF assms q] this] sound_queued(2) [OF assms q]
        show ?thesis by simp
      qed
      show "t \<in> set (waiting ?st) \<and> t \<notin> set (tasks ?st) \<and>
          \<not> completed_flags ?st (completed t)"
        if "holding (workers ?st v) = Some t" for v t
      proof -
        from that have v: "v \<noteq> w" "holding (workers st v) = Some t"
          by (auto simp: h split: if_splits)
        have "t \<noteq> task"
        proof
          assume "t = task"
          with v(2) sound_held_once [OF assms mine, of v] have "v = w" by simp
          with v(1) show False ..
        qed
        from other [OF sound_held(1) [OF assms v(2)] this] sound_held [OF assms v(2)]
        show ?thesis by (simp add: st)
      qed
      show "v' = v"
        if "holding (workers ?st v) = Some t" "holding (workers ?st v') = Some t" for v v' t
        using that sound_held_once [OF assms, of v t v']
        by (auto simp: h split: if_splits)
      show "k' \<le> 6 \<and>
          (1 \<le> k' \<longrightarrow> resp_image_id (responses ?st (response t)) = image_id (request t)) \<and>
          (2 \<le> k' \<longrightarrow> resp_filename (responses ?st (response t)) = filename (request t))"
        if "workers ?st v = Filling t res k'" for v t res k'
      proof -
        from that have "workers st v = Filling t res k'"
          by (auto simp: st split: if_splits)
        then show ?thesis using sound_filling [OF assms, of v t res k'] by (auto simp: st)
      qed
      show "answers t (responses ?st (response t))"
        if "t \<in> set (waiting ?st)" "t \<notin> set (tasks ?st)"
          "\<And>v. holding (workers ?st v) \<noteq> Some t" for t
      proof (cases "t = task")
        case same: True
        from sound_filling(2,3) [OF assms Filling] True show ?thesis
          by (simp add: same st answers_def)
      next
        case False
        have "holding (workers st v) \<noteq> Some t" for v
          using that(3) [of v] mine False by (cases "v = w") (simp_all add: h)
        with sound_done [OF assms, of t] that(1,2) show ?thesis by (simp add: st)
      qed
    qed (use assms in \<open>auto simp: st sound_waiting sound_queue sound_woken
        dest: sound_written\<close>)
  qed
qed (use assms in \<open>simp_all add: notify_completion_def\<close>)

lemma sound_ProcessImage_enqueue:
  assumes "sound st" and "own_addresses task st"
  shows "sound (ProcessImage_enqueue task st)"
proof -
  let ?st = "ProcessImage_enqueue task st"
  have st: "tasks ?st = tasks st @ [task]" "waiting ?st = task # waiting st"
    "completed_flags ?st = (completed_flags st)(completed task := False)"
    "responses ?st = responses st" "written ?st = written st" "workers ?st = workers st" "woken ?st = woken st"
    by (simp_all add: ProcessImage_enqueue_def enqueue_def)
  from assms(2) have fresh: "response t \<noteq> response task" "completed t \<noteq> completed task"
    if "t \<in> set (waiting st)" for t
    using that by (simp_all add: own_addresses_def)
  have r: "response task \<notin> response ` set (waiting st)"
    using fresh(1) by (metis imageE)
  have c: "completed task \<notin> completed ` set (waiting st)"
    using fresh(2) by (metis imageE)
  from fresh(1) have new: "task \<notin> set (waiting st)" by blast
  with sound_queue(2) [OF assms(1)] have out: "task \<notin> set (tasks st)" by auto
  show ?thesis
  proof (rule soundI)
    show "distinct (map response (waiting ?st))"
      using sound_waiting(1) [OF assms(1)] r by (simp add: st)
    show "distinct (map completed (waiting ?st))"
      using sound_waiting(2) [OF assms(1)] c by (simp add: st)
    show "distinct (tasks ?st)"
      using sound_queue(1) [OF assms(1)] out by (simp add: st)
    show "set (tasks ?st) \<subseteq> set (waiting ?st)"
      using sound_queue(2) [OF assms(1)] by (auto simp: st)
    show "\<not> completed_flags ?st (completed t)" if "t \<in> set (tasks ?st)" for t
      using that sound_queued(2) [OF assms(1), of t] by (auto simp: st)
    show "t \<in> set (waiting ?st) \<and> t \<notin> set (tasks ?st) \<and>
        \<not> completed_flags ?st (completed t)"
      if "holding (workers ?st v) = Some t" for v t
    proof -
      from that have held: "holding (workers st v) = Some t" by (simp add: st)
      note t = sound_held [OF assms(1) held]
      from t(1) new have "t \<noteq> task" by auto
      with t show ?thesis by (simp add: st)
    qed
    show "v' = v"
      if "holding (workers ?st v) = Some t" "holding (workers ?st v') = Some t" for v v' t
      using that sound_held_once [OF assms(1), of v t v'] by (simp add: st)
    show "k \<le> 6 \<and>
        (1 \<le> k \<longrightarrow> resp_image_id (responses ?st (response t)) = image_id (request t)) \<and>
        (2 \<le> k \<longrightarrow> resp_filename (responses ?st (response t)) = filename (request t))"
      if "workers ?st v = Filling t res k" for v t res k
      using that sound_filling [OF assms(1), of v t res k] by (simp add: st)
    show "answers t (responses ?st (response t))"
      if "t \<in> set (waiting ?st)" "t \<notin> set (tasks ?st)"
        "\<And>v. holding (workers ?st v) \<noteq> Some t" for t
      using that sound_done [OF assms(1), of t] by (auto simp: st)
    show "answers t r" if "(t, r, status) \<in> set (written ?st)" for t r status
      using that sound_written [OF assms(1)] by (simp add: st)
    show "distinct (woken ?st)" using sound_woken(1) [OF assms(1)] by (simp add: st)
    show "set (woken ?st) \<subseteq> set (waiting ?st)"
      using sound_woken(2) [OF assms(1)] by (auto simp: st)
    show "completed_flags ?st (completed t)" if "t \<in> set (woken ?st)" for t
    proof -
      from that have w: "t \<in> set (woken st)" by (simp add: st)
      with sound_woken(2) [OF assms(1)] have "t \<in> set (waiting st)" by auto
      from fresh(2) [OF this] sound_woken(3) [OF assms(1) w] show ?thesis by (simp add: st)
    qed
  qed
qed

lemma distinct_map_remove1: "distinct (map f xs) \<Longrightarrow> distinct (map f (remove1 x xs))"
proof -
  assume "distinct (map f xs)"
  then have "distinct xs" "inj_on f (set xs)" by (simp_all add: distinct_map)
  then have "distinct (remove1 x xs)" "inj_on f (set (remove1 x xs))"
    by (simp_all add: inj_on_diff)
  then show ?thesis by (simp add: distinct_map)
qed

lemma sound_wake:
  assumes "sound st"
  shows "sound (wake task st)"
proof (cases "task \<in> set (waiting st) \<and> task \<notin> set (woken st) \<and>
    completed_flags st (completed task)")
  case False
  with assms show ?thesis by (auto simp: wake_def)
next
  case True
  then have eq: "wake task st = st\<lparr>woken := task # woken st\<rparr>" by (simp add: wake_def)
  from assms True show ?thesis unfolding eq sound_def by simp
qed

lemma sound_write_response:
  assumes "sound st"
  shows "sound (write_response task st)"
proof (cases "task \<in> set (woken st)")
  case False
  with assms show ?thesis by (simp add: write_response_def)
next
  case True
  let ?st = "write_response task st"
  have st: "tasks ?st = tasks st" "waiting ?st = remove1 task (waiting st)"
    "written ?st = written st @ [(task, responses st (response task), Status_OK)]"
    "responses ?st = responses st" "completed_flags ?st = completed_flags st"
    "workers ?st = workers st" "woken ?st = remove1 task (woken st)"
    by (simp_all add: write_response_def True)
  note dw = sound_waiting(3) [OF assms]
  then have w: "set (waiting ?st) = set (waiting st) - {task}" by (simp add: st)
  from sound_woken(1) [OF assms]
  have k: "set (woken ?st) = set (woken st) - {task}" by (simp add: st)
  from True sound_woken(2) [OF assms] have mem: "task \<in> set (waiting st)" by auto
  from True have flag: "completed_flags st (completed task)" by (rule sound_woken(3) [OF assms])
  from flag sound_queued(2) [OF assms, of task] have out: "task \<notin> set (tasks st)" by auto
  from flag sound_held(3) [OF assms] have unheld: "holding (workers st v) \<noteq> Some task" for v
    by auto
  from mem out unheld have mine: "answers task (responses st (response task))"
    using sound_done [OF assms, of task] by simp
  show ?thesis
  proof (rule soundI)
    show "distinct (map response (waiting ?st))"
      using sound_waiting(1) [OF assms] by (simp add: st distinct_map_remove1)
    show "distinct (map completed (waiting ?st))"
      using sound_waiting(2) [OF assms] by (simp add: st distinct_map_remove1)
    show "distinct (tasks ?st)" using sound_queue(1) [OF assms] by (simp add: st)
    show "set (tasks ?st) \<subseteq> set (waiting ?st)"
      using sound_queue(2) [OF assms] out unfolding w by (auto simp: st)
    show "\<not> completed_flags ?st (completed t)" if "t \<in> set (tasks ?st)" for t
      using that sound_queued(2) [OF assms, of t] by (simp add: st)
    show "t \<in> set (waiting ?st) \<and> t \<notin> set (tasks ?st) \<and>
        \<not> completed_flags ?st (completed t)"
      if "holding (workers ?st v) = Some t" for v t
    proof -
      from that have held: "holding (workers st v) = Some t" by (simp add: st)
      with unheld [of v] have "t \<noteq> task" by auto
      with sound_held [OF assms held] show ?thesis unfolding w by (simp add: st)
    qed
    show "v' = v"
      if "holding (workers ?st v) = Some t" "holding (workers ?st v') = Some t" for v v' t
      using that sound_held_once [OF assms, of v t v'] by (simp add: st)
    show "k \<le> 6 \<and>
        (1 \<le> k \<longrightarrow> resp_image_id (responses ?st (response t)) = image_id (request t)) \<and>
        (2 \<le> k \<longrightarrow> resp_filename (responses ?st (response t)) = filename (request t))"
      if "workers ?st v = Filling t res k" for v t res k
      using that sound_filling [OF assms, of v t res k] by (simp add: st)
    show "answers t (responses ?st (response t))"
      if "t \<in> set (waiting ?st)" "t \<notin> set (tasks ?st)"
        "\<And>v. holding (workers ?st v) \<noteq> Some t" for t
      using that sound_done [OF assms, of t] unfolding w by (simp add: st)
    show "answers t r" if "(t, r, status) \<in> set (written ?st)" for t r status
      using that sound_written [OF assms] mine by (auto simp: st)
    show "distinct (woken ?st)" using sound_woken(1) [OF assms] by (simp add: st)
    show "set (woken ?st) \<subseteq> set (waiting ?st)"
      using sound_woken(2) [OF assms] unfolding w k by auto
    show "completed_flags ?st (completed t)" if "t \<in> set (woken ?st)" for t
      using that sound_woken(3) [OF assms, of t] unfolding k by (simp add: st)
  qed
qed

lemma sound_Shutdown:
  assumes "sound st"
  shows "sound (st\<lparr>stop := True\<rparr>)"
  using assms by (simp add: sound_def)

lemma sound_step:
  assumes "sound st" and "calls_own_memory env st (e # evs)"
  shows "sound (step env st e)"
proof (cases e)
  case (Call task)
  with assms(2) have "own_addresses task st" by simp
  with assms(1) Call show ?thesis by (simp add: sound_ProcessImage_enqueue)
next
  case (Take w)
  with assms(1) show ?thesis by (simp add: sound_dequeue)
next
  case (Process w)
  with assms(1) show ?thesis by (simp add: sound_process_task)
next
  case (Fill w)
  with assms(1) show ?thesis by (simp add: sound_set_field)
next
  case (Notify w)
  with assms(1) show ?thesis by (simp add: sound_notify_completion)
next
  case (Wake task)
  with assms(1) show ?thesis by (simp add: sound_wake)
next
  case (Return task)
  with assms(1) show ?thesis by (simp add: sound_write_response)
next
  case Shutdown
  with assms(1) show ?thesis by (simp add: sound_Shutdown)
qed

lemma calls_own_memory_tail:
  "calls_own_memory env st (e # evs) \<Longrightarrow> calls_own_memory env (step env st e) evs"
  by (cases e) simp_all

lemma sound_run:
  "sound st \<Longrightarrow> calls_own_memory env st evs \<Longrightarrow> sound (run env evs st)"
proof (induction evs arbitrary: st)
  case Nil
  then show ?case by (simp add: run_def)
next
  case (Cons e evs)
  from Cons.prems have "sound (step env st e)" by (rule sound_step)
  moreover from Cons.prems(2) have "calls_own_memory env (step env st e) evs"
    by (rule calls_own_memory_tail)
  ultimately have "sound (run env evs (step env st e))" by (rule Cons.IH)
  then show ?case by (simp add: run_def)
qed

lemma return_uninterrupted:
  assumes "task \<in> set (waiting st)" and "task \<notin> set (woken st)"
  shows "written (run env [Wake task, Return task] st) =
     (case ProcessImage_return task st of
        None \<Rightarrow> written st
      | Some (r, status) \<Rightarrow> written st @ [(task, r, status)])"
  using assms by (simp add: run_def wake_def write_response_def ProcessImage_return_def)

subsection \<open>The small environment, evaluated\<close>

lemma demo_env_simps:
  "\<not> Init_fails demo_env"
  "pixRead demo_env d = (if d = [] then None else Some d)"
  "recognize demo_env PSM_SINGLE_BLOCK p = Some p"
  "recognize demo_env PSM_SINGLE_WORD p = Some ''hello''"
  "encode_png demo_env p = p"
  "elapsed demo_env = 0"
  "pixOtsuThreshOnBackgroundNorm demo_env p = None"
  "pixContrastNorm demo_env p = None"
  "pixUnsharpMaskingGray demo_env p = None"
  by (simp_all add: demo_env_def)

lemma final_image_demo: "final_image demo_env p = p"
  by (simp add: final_image_def binary_or_scaled_def normalize_contrast_def sharpen_def
      upscale_if_small_def demo_env_def)

lemma remove_junk_samples:
  "remove_if is_junk ''x'' = ''x''"
  "remove_if is_junk '' a'' = '' a''"
  by (simp_all add: remove_if_def is_junk_def)

lemma sanitize_samples:
  "sanitize ''hello'' = ''hello''"
  "sanitize '' a'' = ''a''"
  "sanitize ''x'' = ''x''"
  by (simp_all add: sanitize_def clean_up_def remove_if_def remove_chr_def is_junk_def
      substr_def)

lemma process_image_demo_a:
  "process_image demo_env '' a'' =
     (\<lparr>ocr_text = ''a'', time_ms = 0, processed_image = '' a''\<rparr>,
      [(PSM_SINGLE_BLOCK, '' a'')])"
proof -
  have "pixRead demo_env '' a'' = Some '' a''" by (simp add: demo_env_simps)
  from process_image_no_retry [OF demo_env_simps(1) this] show ?thesis
    by (simp add: final_image_demo demo_env_simps text_or_empty_def remove_junk_samples
        sanitize_samples)
qed

lemma process_image_demo_x:
  "process_image demo_env ''x'' =
     (\<lparr>ocr_text = ''hello'', time_ms = 0, processed_image = ''x''\<rparr>,
      [(PSM_SINGLE_BLOCK, ''x''), (PSM_SINGLE_WORD, ''x'')])"
proof -
  have "pixRead demo_env ''x'' = Some ''x''" by (simp add: demo_env_simps)
  from process_image_retry [OF demo_env_simps(1) this] show ?thesis
    by (simp add: final_image_demo demo_env_simps text_or_empty_def remove_junk_samples
        sanitize_samples)
qed

lemma process_image_demo_empty:
  "process_image demo_env [] =
     (\<lparr>ocr_text = ''[ERROR: Unable to open image]'', time_ms = 0, processed_image = []\<rparr>, [])"
  using process_image_no_bitmap [of demo_env "[]"] by (simp add: demo_env_simps)

lemma sanitize_sample_mixed:
  "sanitize [CHR 0x80, CHR '' '', CHR ''a'', CHR 0x09, CHR '' '', CHR 0x01, CHR ''b'', CHR 0x0D,
     CHR ''\<newline>''] = ''a b''"
  by (simp add: sanitize_def clean_up_def remove_if_def remove_chr_def is_junk_def substr_def)

lemmas pool_steps = run_def turn_def new_pool_def ProcessImage_enqueue_def enqueue_def
  dequeue_def process_task_def set_field_def notify_completion_def wake_def
  write_response_def

lemma tasks_distinct:
  "J1 \<noteq> J2" "J1 \<noteq> J3" "J2 \<noteq> J3" "J2 \<noteq> J1" "J3 \<noteq> J1" "J3 \<noteq> J2"
  "J4 \<noteq> J1" "J4 \<noteq> J2" "J4 \<noteq> J3" "J1 \<noteq> J4" "J2 \<noteq> J4" "J3 \<noteq> J4"
  by (simp_all add: J1_def J2_def J3_def J4_def)

lemma task_fields:
  "completed J1 = 11" "completed J2 = 12" "completed J3 = 13" "completed J4 = 11"
  "response J1 = 1" "response J2 = 2" "response J3 = 3" "response J4 = 1"
  by (simp_all add: J1_def J2_def J3_def J4_def)

lemma run_demo_order:
  "taken (run demo_env demo_single (new_pool mem0 flags0)) = [J1, J2, J3] \<and>
   tasks (run demo_env demo_single (new_pool mem0 flags0)) = []"
  by (simp add: demo_single_def pool_steps)

lemma run_demo_written:
  "map fst (written (run demo_env demo_events (new_pool mem0 flags0))) = [J2, J1, J3, J4]"
  by (simp add: demo_events_def pool_steps tasks_distinct task_fields)

lemma run_demo_taken:
  "taken (run demo_env demo_events (new_pool mem0 flags0)) = [J1, J2, J3, J4]"
  by (simp add: demo_events_def pool_steps tasks_distinct task_fields)

lemma demo_calls_own_memory:
  "calls_own_memory demo_env (new_pool mem0 flags0) demo_events"
  by (simp add: demo_events_def pool_steps own_addresses_def tasks_distinct task_fields)

section \<open>The claims\<close>

subsection \<open>The retry\<close>

text \<open>
  C1, as the code has it. The test that decides the retry reads the output of the
  block attempt after the erasure of lines 127 and 128 and before the clean-up: the
  text has lost its bytes above 127 and its control bytes, and still has its leading and
  trailing spaces and newlines. When that text has fewer than two characters, the
  engine runs once more, in word mode, on the same final image, and the text of the
  result is the sanitized output of the word attempt, however short. Otherwise the
  engine runs once, and the text of the result is the sanitized output of the block
  attempt.
\<close>

theorem process_image_retry_rule:
  assumes "\<not> Init_fails env" and "pixRead env d = Some img"
  shows "let final = final_image env img;
             block = remove_if is_junk (text_or_empty (recognize env PSM_SINGLE_BLOCK final))
         in (length block < 2 \<longrightarrow>
               snd (process_image env d) = [(PSM_SINGLE_BLOCK, final), (PSM_SINGLE_WORD, final)] \<and>
               ocr_text (fst (process_image env d)) =
                 sanitize (text_or_empty (recognize env PSM_SINGLE_WORD final))) \<and>
            (2 \<le> length block \<longrightarrow>
               snd (process_image env d) = [(PSM_SINGLE_BLOCK, final)] \<and>
               ocr_text (fst (process_image env d)) =
                 sanitize (text_or_empty (recognize env PSM_SINGLE_BLOCK final)))"
proof -
  let ?final = "final_image env img"
  let ?block = "remove_if is_junk (text_or_empty (recognize env PSM_SINGLE_BLOCK ?final))"
  have short: "length ?block < 2 \<Longrightarrow>
      snd (process_image env d) = [(PSM_SINGLE_BLOCK, ?final), (PSM_SINGLE_WORD, ?final)] \<and>
      ocr_text (fst (process_image env d)) =
        sanitize (text_or_empty (recognize env PSM_SINGLE_WORD ?final))"
    using process_image_retry [OF assms] by simp
  have long: "2 \<le> length ?block \<Longrightarrow>
      snd (process_image env d) = [(PSM_SINGLE_BLOCK, ?final)] \<and>
      ocr_text (fst (process_image env d)) =
        sanitize (text_or_empty (recognize env PSM_SINGLE_BLOCK ?final))"
    using process_image_no_retry [OF assms] by simp
  from short long show ?thesis unfolding Let_def by blast
qed

text \<open>
  The rule at two inputs of the small environment: the image \<^verbatim>\<open>x\<close>, whose block
  output has one character, is read twice; the image of a space and an \<^verbatim>\<open>a\<close>,
  whose block output has two, is read once.
\<close>

theorem process_image_retry_rule_witness:
  "(\<not> Init_fails demo_env \<and> pixRead demo_env ''x'' = Some ''x'' \<and>
    length (remove_if is_junk
      (text_or_empty (recognize demo_env PSM_SINGLE_BLOCK (final_image demo_env ''x'')))) < 2 \<and>
    snd (process_image demo_env ''x'') = [(PSM_SINGLE_BLOCK, ''x''), (PSM_SINGLE_WORD, ''x'')] \<and>
    ocr_text (fst (process_image demo_env ''x'')) = ''hello'') \<and>
   (pixRead demo_env '' a'' = Some '' a'' \<and>
    2 \<le> length (remove_if is_junk
      (text_or_empty (recognize demo_env PSM_SINGLE_BLOCK (final_image demo_env '' a'')))) \<and>
    snd (process_image demo_env '' a'') = [(PSM_SINGLE_BLOCK, '' a'')] \<and>
    ocr_text (fst (process_image demo_env '' a'')) = ''a'')"
proof -
  have x: "pixRead demo_env ''x'' = Some ''x''" by (simp add: demo_env_simps)
  have a: "pixRead demo_env '' a'' = Some '' a''" by (simp add: demo_env_simps)
  show ?thesis
    using process_image_retry_rule [OF demo_env_simps(1) x]
      process_image_retry_rule [OF demo_env_simps(1) a]
    by (simp add: Let_def final_image_demo demo_env_simps text_or_empty_def
        sanitize_samples remove_junk_samples)
qed

text \<open>
  C1 as it is written fails where trimming shortens the block output. The engine
  reads a space and an \<^verbatim>\<open>a\<close> in block mode: the sanitized output is \<^verbatim>\<open>a\<close>, one
  character, and yet the engine runs once, in block mode only, and the text of the
  result is \<^verbatim>\<open>a\<close>, not the \<^verbatim>\<open>hello\<close> that the word attempt would have given.
\<close>

theorem retry_on_sanitized_length_counterexample:
  "length (sanitize (text_or_empty
     (recognize demo_env PSM_SINGLE_BLOCK (final_image demo_env '' a'')))) < 2 \<and>
   snd (process_image demo_env '' a'') = [(PSM_SINGLE_BLOCK, final_image demo_env '' a'')] \<and>
   ocr_text (fst (process_image demo_env '' a'')) = ''a'' \<and>
   sanitize (text_or_empty
     (recognize demo_env PSM_SINGLE_WORD (final_image demo_env '' a''))) = ''hello''"
  by (simp add: process_image_demo_a final_image_demo demo_env_simps text_or_empty_def
      sanitize_samples)

subsection \<open>The sanitization\<close>

text \<open>
  C2, as the code has it. The sanitized text of a raw output is what remains of it
  after the bytes above 127 and the bytes below 32 other than the newline are taken
  out (carriage return and tab are among them) and spaces and newlines are cut from
  both ends, or \<^verbatim>\<open>[UNREADABLE]\<close> when nothing remains; the byte 127 stays. On a raw
  output without the byte 127 this is the sanitization of the specification. The text of
  a result that comes from recognition is the sanitized raw output of the last attempt
  the engine made.
\<close>

theorem sanitize_keeps_printable_and_newline:
  "sanitize raw =
     (let t = spec_trim (filter (\<lambda>c. (of_char c :: nat) \<le> 127 \<and>
                  (32 \<le> (of_char c :: nat) \<or> c = CHR ''\<newline>'')) raw)
      in if t = [] then ''[UNREADABLE]'' else t) \<and>
   (CHR 0x7F \<notin> set raw \<longrightarrow> sanitize raw = spec_sanitize raw) \<and>
   (\<not> Init_fails env \<and> pixRead env d = Some img \<longrightarrow>
      snd (process_image env d) \<noteq> [] \<and>
      ocr_text (fst (process_image env d)) =
        sanitize (text_or_empty
          (recognize env (fst (last (snd (process_image env d)))) (final_image env img))))"
proof -
  have 1: "sanitize raw =
     (let t = spec_trim (filter (\<lambda>c. (of_char c :: nat) \<le> 127 \<and>
                  (32 \<le> (of_char c :: nat) \<or> c = CHR ''\<newline>'')) raw)
      in if t = [] then ''[UNREADABLE]'' else t)"
    by (simp only: sanitize_trim remove_junk_kept)
  have 2: "CHR 0x7F \<notin> set raw \<longrightarrow> sanitize raw = spec_sanitize raw"
    by (simp add: sanitize_spec_sanitize)
  have 3: "\<not> Init_fails env \<and> pixRead env d = Some img \<longrightarrow>
      snd (process_image env d) \<noteq> [] \<and>
      ocr_text (fst (process_image env d)) =
        sanitize (text_or_empty
          (recognize env (fst (last (snd (process_image env d)))) (final_image env img)))"
    by (simp add: process_image_cases Let_def)
  from 1 2 3 show ?thesis by blast
qed

text \<open>
  At a raw output with a byte above 127, a tab, a control byte, a carriage return and
  blanks at both ends, and at the image \<^verbatim>\<open>x\<close> of the small environment.
\<close>

theorem sanitize_keeps_printable_and_newline_witness:
  "CHR 0x7F \<notin> set [CHR 0x80, CHR '' '', CHR ''a'', CHR 0x09, CHR '' '', CHR 0x01, CHR ''b'',
      CHR 0x0D, CHR ''\<newline>''] \<and>
   spec_sanitize [CHR 0x80, CHR '' '', CHR ''a'', CHR 0x09, CHR '' '', CHR 0x01, CHR ''b'',
      CHR 0x0D, CHR ''\<newline>''] = ''a b'' \<and>
   \<not> Init_fails demo_env \<and> pixRead demo_env ''x'' = Some ''x'' \<and>
   snd (process_image demo_env ''x'') \<noteq> [] \<and>
   ocr_text (fst (process_image demo_env ''x'')) =
     sanitize (text_or_empty
       (recognize demo_env (fst (last (snd (process_image demo_env ''x''))))
          (final_image demo_env ''x'')))"
proof -
  let ?raw = "[CHR 0x80, CHR '' '', CHR ''a'', CHR 0x09, CHR '' '', CHR 0x01, CHR ''b'',
      CHR 0x0D, CHR ''\<newline>'']"
  have x: "pixRead demo_env ''x'' = Some ''x''" by (simp add: demo_env_simps)
  have d: "CHR 0x7F \<notin> set ?raw" by simp
  note inst = sanitize_keeps_printable_and_newline [of ?raw demo_env "''x''" "''x''"]
  from inst d have eq: "sanitize ?raw = spec_sanitize ?raw" by blast
  have s: "spec_sanitize ?raw = ''a b''"
    unfolding eq [symmetric] by (rule sanitize_sample_mixed)
  from inst x demo_env_simps(1) have "snd (process_image demo_env ''x'') \<noteq> [] \<and>
     ocr_text (fst (process_image demo_env ''x'')) =
       sanitize (text_or_empty
         (recognize demo_env (fst (last (snd (process_image demo_env ''x''))))
            (final_image demo_env ''x'')))"
    by blast
  with d s x demo_env_simps(1) show ?thesis by blast
qed

text \<open>
  C2 as it is written fails at the byte 127: DEL is a control character, neither space
  nor newline, the specification's sanitization removes it, and the code keeps it.
\<close>

theorem sanitize_keeps_DEL_counterexample:
  "is_control (CHR 0x7F) \<and> CHR 0x7F \<noteq> CHR '' '' \<and> CHR 0x7F \<noteq> CHR ''\<newline>'' \<and>
   spec_sanitize [CHR ''a'', CHR 0x7F, CHR ''b''] = ''ab'' \<and>
   sanitize [CHR ''a'', CHR 0x7F, CHR ''b''] = [CHR ''a'', CHR 0x7F, CHR ''b'']"
  by (simp add: is_control_def sanitize_def clean_up_def remove_if_def remove_chr_def
      is_junk_def substr_def spec_sanitize_def spec_stripped_def spec_trim_def is_blank_def)

text \<open>
  C4: sanitizing a sanitized text gives the same text.
\<close>

theorem sanitize_idempotent: "sanitize (sanitize s) = sanitize s"
  by (rule sanitize_twice)

theorem sanitize_idempotent_witness:
  "sanitize '' a'' = ''a'' \<and> sanitize (sanitize '' a'') = ''a''"
  using sanitize_idempotent [of "'' a''"] by (simp add: sanitize_samples)

subsection \<open>The text of a result\<close>

text \<open>
  C3: the text that \<open>process_image\<close> returns is never empty. It is one of the three
  sentinels, or the raw output of a recognition of the final image with its junk bytes
  removed and its ends trimmed; and the worker that takes a task puts that text in the
  response of the task before it sets the completion flag.
\<close>

theorem text_never_empty:
  "ocr_text (fst (process_image env d)) \<noteq> [] \<and>
   (ocr_text (fst (process_image env d)) = ''[ERROR: Tesseract initialization failed]'' \<or>
    ocr_text (fst (process_image env d)) = ''[ERROR: Unable to open image]'' \<or>
    ocr_text (fst (process_image env d)) = ''[UNREADABLE]'' \<or>
    (\<exists>img m. pixRead env d = Some img \<and>
       ocr_text (fst (process_image env d)) =
         spec_trim (remove_if is_junk (text_or_empty (recognize env m (final_image env img)))))) \<and>
   (tasks st = task # rest \<longrightarrow>
      extracted_text (responses (worker env st) (response task)) =
        ocr_text (fst (process_image env (image_data (request task)))) \<and>
      completed_flags (worker env st) (completed task))"
proof -
  have a: "ocr_text (fst (process_image env d)) \<noteq> []"
    by (simp add: process_image_cases Let_def sanitize_not_empty split: option.split)
  have b: "ocr_text (fst (process_image env d)) = ''[ERROR: Tesseract initialization failed]'' \<or>
    ocr_text (fst (process_image env d)) = ''[ERROR: Unable to open image]'' \<or>
    ocr_text (fst (process_image env d)) = ''[UNREADABLE]'' \<or>
    (\<exists>img m. pixRead env d = Some img \<and>
       ocr_text (fst (process_image env d)) =
         spec_trim (remove_if is_junk (text_or_empty (recognize env m (final_image env img)))))"
  proof (cases "Init_fails env")
    case True
    then show ?thesis by (simp add: process_image_no_engine)
  next
    case False
    show ?thesis
    proof (cases "pixRead env d")
      case None
      with False show ?thesis by (simp add: process_image_no_bitmap)
    next
      case (Some img)
      have "\<exists>m. ocr_text (fst (process_image env d)) =
          sanitize (text_or_empty (recognize env m (final_image env img)))"
      proof (cases "length (remove_if is_junk (text_or_empty
          (recognize env PSM_SINGLE_BLOCK (final_image env img)))) < 2")
        case True
        from process_image_retry [OF False Some True] show ?thesis by auto
      next
        case short: False
        from process_image_no_retry [OF False Some short] show ?thesis by auto
      qed
      then obtain m where "ocr_text (fst (process_image env d)) =
          sanitize (text_or_empty (recognize env m (final_image env img)))" ..
      with sanitize_cases [of "text_or_empty (recognize env m (final_image env img))"] Some
      show ?thesis by auto
    qed
  qed
  have c: "tasks st = task # rest \<Longrightarrow>
      extracted_text (responses (worker env st) (response task)) =
        ocr_text (fst (process_image env (image_data (request task)))) \<and>
      completed_flags (worker env st) (completed task)"
    by (simp add: worker_front fill_response_def)
  from a b c show ?thesis by blast
qed

theorem text_never_empty_witness:
  "tasks (enqueue J1 (new_pool mem0 flags0)) = [J1] \<and>
   ocr_text (fst (process_image demo_env (image_data (request J1)))) = ''a'' \<and>
   extracted_text (responses (worker demo_env (enqueue J1 (new_pool mem0 flags0))) (response J1))
     = ''a'' \<and>
   completed_flags (worker demo_env (enqueue J1 (new_pool mem0 flags0))) (completed J1)"
proof -
  have q: "tasks (enqueue J1 (new_pool mem0 flags0)) = J1 # []"
    by (simp add: enqueue_def new_pool_def)
  have d: "image_data (request J1) = '' a''" by (simp add: J1_def)
  from text_never_empty [of demo_env "'' a''" "enqueue J1 (new_pool mem0 flags0)" J1 "[]"] q
  show ?thesis by (simp add: d process_image_demo_a)
qed

subsection \<open>Failures\<close>

text \<open>
  C6, as the code has it. When a worker has taken a task, the call that waits for it
  returns \<^verbatim>\<open>Status::OK\<close> with the response the worker filled; the success flag of
  that response is true and its text is the text of \<open>process_image\<close>, which is the
  initialization sentinel when the engine does not initialize, and the sentinel
  \<^verbatim>\<open>[ERROR: Unable to open image]\<close> when the engine initializes and the bytes do not
  decode.
\<close>

theorem failure_is_sentinel_text:
  assumes "tasks st = task # rest"
  shows "ProcessImage_return task (worker env st) =
           Some (responses (worker env st) (response task), Status_OK) \<and>
         success (responses (worker env st) (response task)) \<and>
         extracted_text (responses (worker env st) (response task)) =
           ocr_text (fst (process_image env (image_data (request task)))) \<and>
         (Init_fails env \<longrightarrow>
            extracted_text (responses (worker env st) (response task)) =
              ''[ERROR: Tesseract initialization failed]'') \<and>
         (\<not> Init_fails env \<and> pixRead env (image_data (request task)) = None \<longrightarrow>
            extracted_text (responses (worker env st) (response task)) =
              ''[ERROR: Unable to open image]'')"
  using assms
  by (auto simp: worker_front ProcessImage_return_def fill_response_def
      process_image_no_engine process_image_no_bitmap)

text \<open>
  The third job of the small example has no bytes: with the engine, and without it.
\<close>

theorem failure_is_sentinel_text_witness:
  "tasks (enqueue J3 (new_pool mem0 flags0)) = [J3] \<and>
   \<not> Init_fails demo_env \<and> pixRead demo_env (image_data (request J3)) = None \<and>
   ProcessImage_return J3 (worker demo_env (enqueue J3 (new_pool mem0 flags0))) =
     Some (responses (worker demo_env (enqueue J3 (new_pool mem0 flags0))) (response J3),
           Status_OK) \<and>
   success (responses (worker demo_env (enqueue J3 (new_pool mem0 flags0))) (response J3)) \<and>
   extracted_text (responses (worker demo_env (enqueue J3 (new_pool mem0 flags0))) (response J3)) =
     ''[ERROR: Unable to open image]'' \<and>
   Init_fails demo_env_no_engine \<and>
   success (responses (worker demo_env_no_engine (enqueue J3 (new_pool mem0 flags0)))
     (response J3)) \<and>
   extracted_text (responses (worker demo_env_no_engine (enqueue J3 (new_pool mem0 flags0)))
     (response J3)) = ''[ERROR: Tesseract initialization failed]''"
proof -
  have q: "tasks (enqueue J3 (new_pool mem0 flags0)) = J3 # []"
    by (simp add: enqueue_def new_pool_def)
  have r: "pixRead demo_env (image_data (request J3)) = None"
    by (simp add: demo_env_simps J3_def)
  have i: "Init_fails demo_env_no_engine" by (simp add: demo_env_no_engine_def)
  from failure_is_sentinel_text [OF q, of demo_env]
    failure_is_sentinel_text [OF q, of demo_env_no_engine] q r i demo_env_simps(1)
  show ?thesis by blast
qed

text \<open>
  C6 as it is written fails for bytes that do not decode when the engine does not
  initialize either: the text is the initialization sentinel.
\<close>

theorem undecodable_with_failed_engine_counterexample:
  "pixRead demo_env_no_engine (image_data (request J3)) = None \<and>
   extracted_text
     (responses (worker demo_env_no_engine (enqueue J3 (new_pool mem0 flags0))) (response J3)) =
     ''[ERROR: Tesseract initialization failed]'' \<and>
   extracted_text
     (responses (worker demo_env_no_engine (enqueue J3 (new_pool mem0 flags0))) (response J3)) \<noteq>
     ''[ERROR: Unable to open image]''"
proof -
  have i: "Init_fails demo_env_no_engine" by (simp add: demo_env_no_engine_def)
  have r: "pixRead demo_env_no_engine (image_data (request J3)) = None"
    by (simp add: demo_env_no_engine_def demo_env_def J3_def)
  have "extracted_text
     (responses (worker demo_env_no_engine (enqueue J3 (new_pool mem0 flags0))) (response J3)) =
     ''[ERROR: Tesseract initialization failed]''"
    by (simp add: worker_def enqueue_def new_pool_def fill_response_def
        process_image_no_engine [OF i])
  with r show ?thesis by simp
qed

text \<open>
  C10: the engine is initialized before the image is decoded. When the initialization
  fails the text is the initialization sentinel, whatever the bytes; a result whose
  text is \<^verbatim>\<open>[ERROR: Unable to open image]\<close> comes from a call whose engine
  initialized.
\<close>

theorem engine_before_decoding:
  "(Init_fails env \<longrightarrow>
      ocr_text (fst (process_image env d)) = ''[ERROR: Tesseract initialization failed]'') \<and>
   (ocr_text (fst (process_image env d)) = ''[ERROR: Unable to open image]'' \<longrightarrow>
      \<not> Init_fails env)"
  by (auto simp: process_image_no_engine)

theorem engine_before_decoding_witness:
  "Init_fails demo_env_no_engine \<and> pixRead demo_env_no_engine [] = None \<and>
   pixRead demo_env_no_engine ''x'' = Some ''x'' \<and>
   ocr_text (fst (process_image demo_env_no_engine [])) =
     ''[ERROR: Tesseract initialization failed]'' \<and>
   ocr_text (fst (process_image demo_env_no_engine ''x'')) =
     ''[ERROR: Tesseract initialization failed]'' \<and>
   ocr_text (fst (process_image demo_env [])) = ''[ERROR: Unable to open image]'' \<and>
   \<not> Init_fails demo_env"
  using engine_before_decoding [of demo_env_no_engine "[]"]
    engine_before_decoding [of demo_env_no_engine "''x''"]
    engine_before_decoding [of demo_env "[]"]
  by (simp add: demo_env_no_engine_def demo_env_simps process_image_demo_empty)

subsection \<open>The optional stages\<close>

text \<open>
  C7: each of the three optional stages passes its input on when it gives no result.
  With \<open>scaled\<close> the output of the scaling stage, \<open>sharp\<close> that of the unsharp mask
  and \<open>contrast\<close> that of the contrast normalization: a failed unsharp mask leaves
  \<open>scaled\<close>, a failed normalization leaves \<open>sharp\<close>, and a failed binarization makes
  \<open>contrast\<close> the final image. Then every recognition runs on \<open>contrast\<close>, the
  processed image is its encoding, and the text is the sanitized output of the last
  recognition, no error sentinel being involved.
\<close>

theorem optional_stages_pass_through:
  "let scaled = upscale_if_small env (pixConvertTo8 env img);
       sharp = sharpen env scaled;
       contrast = normalize_contrast env sharp
   in (pixUnsharpMaskingGray env scaled = None \<longrightarrow> sharp = scaled) \<and>
      (pixContrastNorm env sharp = None \<longrightarrow> contrast = sharp) \<and>
      (pixOtsuThreshOnBackgroundNorm env contrast = None \<longrightarrow> final_image env img = contrast) \<and>
      (\<not> Init_fails env \<and> pixRead env d = Some img \<and>
       pixOtsuThreshOnBackgroundNorm env contrast = None \<longrightarrow>
         snd (process_image env d) \<noteq> [] \<and>
         (\<forall>(m, q) \<in> set (snd (process_image env d)). q = contrast) \<and>
         processed_image (fst (process_image env d)) = encode_png env contrast \<and>
         ocr_text (fst (process_image env d)) =
           sanitize (text_or_empty
             (recognize env (fst (last (snd (process_image env d)))) contrast)))"
proof -
  let ?scaled = "upscale_if_small env (pixConvertTo8 env img)"
  let ?sharp = "sharpen env ?scaled"
  let ?c = "normalize_contrast env ?sharp"
  have 1: "pixUnsharpMaskingGray env ?scaled = None \<longrightarrow> ?sharp = ?scaled"
    by (simp add: sharpen_def)
  have 2: "pixContrastNorm env ?sharp = None \<longrightarrow> ?c = ?sharp"
    by (simp add: normalize_contrast_def)
  have 3: "pixOtsuThreshOnBackgroundNorm env ?c = None \<longrightarrow> final_image env img = ?c"
    by (simp add: final_image_def binary_or_scaled_def)
  have 4: "snd (process_image env d) \<noteq> [] \<and>
      (\<forall>(m, q) \<in> set (snd (process_image env d)). q = ?c) \<and>
      processed_image (fst (process_image env d)) = encode_png env ?c \<and>
      ocr_text (fst (process_image env d)) =
        sanitize (text_or_empty (recognize env (fst (last (snd (process_image env d)))) ?c))"
    if "\<not> Init_fails env" "pixRead env d = Some img"
      "pixOtsuThreshOnBackgroundNorm env ?c = None"
  proof -
    from that(3) 3 have "final_image env img = ?c" by blast
    with that(1,2) show ?thesis
      by (simp add: process_image_cases Let_def)
  qed
  from 1 2 3 4 show ?thesis unfolding Let_def by blast
qed

text \<open>In the small environment the three stages fail, and the image is read as it came.\<close>

theorem optional_stages_pass_through_witness:
  "pixUnsharpMaskingGray demo_env ''x'' = None \<and>
   pixContrastNorm demo_env ''x'' = None \<and>
   pixOtsuThreshOnBackgroundNorm demo_env ''x'' = None \<and>
   sharpen demo_env (upscale_if_small demo_env (pixConvertTo8 demo_env ''x'')) = ''x'' \<and>
   final_image demo_env ''x'' = ''x'' \<and>
   \<not> Init_fails demo_env \<and> pixRead demo_env ''x'' = Some ''x'' \<and>
   snd (process_image demo_env ''x'') = [(PSM_SINGLE_BLOCK, ''x''), (PSM_SINGLE_WORD, ''x'')] \<and>
   processed_image (fst (process_image demo_env ''x'')) = ''x'' \<and>
   ocr_text (fst (process_image demo_env ''x'')) = ''hello''"
proof -
  have u: "upscale_if_small demo_env (pixConvertTo8 demo_env ''x'') = ''x''"
    by (simp add: upscale_if_small_def demo_env_def)
  have x: "pixRead demo_env ''x'' = Some ''x''" by (simp add: demo_env_simps)
  note inst = optional_stages_pass_through [of demo_env "''x''" "''x''", unfolded Let_def u]
  from inst [THEN conjunct1] have s: "sharpen demo_env ''x'' = ''x''"
    by (simp add: demo_env_simps)
  from inst [THEN conjunct2, THEN conjunct1]
  have n: "normalize_contrast demo_env (sharpen demo_env ''x'') = sharpen demo_env ''x''"
    by (simp only: demo_env_simps simp_thms)
  from inst [THEN conjunct2, THEN conjunct2, THEN conjunct1]
  have "final_image demo_env ''x'' = normalize_contrast demo_env (sharpen demo_env ''x'')"
    by (simp only: demo_env_simps simp_thms)
  moreover from n have "normalize_contrast demo_env ''x'' = ''x''" by (simp only: s)
  ultimately have "final_image demo_env ''x'' = ''x''" by (simp only: s)
  with s u x show ?thesis by (simp add: demo_env_simps process_image_demo_x)
qed

subsection \<open>The queue\<close>

text \<open>
  C8: the queue is first in, first out. \<open>enqueue\<close> puts the task at the tail and a
  worker takes the task at the head. In every run of the server from its start,
  whatever the number of workers and the interleaving of the steps of calls and
  workers, the tasks taken so far followed by the tasks still queued are the tasks of
  the calls in the order the calls were made; when the queue has been emptied, the tasks
  were taken in exactly the order of submission.
\<close>

theorem queue_is_fifo:
  "tasks (enqueue task st) = tasks st @ [task] \<and>
   (tasks st = task # rest \<longrightarrow>
      tasks (worker env st) = rest \<and> taken (worker env st) = taken st @ [task]) \<and>
   taken (run env evs (new_pool mem flags)) @ tasks (run env evs (new_pool mem flags)) = calls evs \<and>
   (tasks (run env evs (new_pool mem flags)) = [] \<longrightarrow>
      taken (run env evs (new_pool mem flags)) = calls evs)"
proof -
  have 1: "tasks (enqueue task st) = tasks st @ [task]" by (simp add: enqueue_def)
  have 2: "tasks st = task # rest \<longrightarrow>
      tasks (worker env st) = rest \<and> taken (worker env st) = taken st @ [task]"
    by (simp add: worker_front)
  have 3: "taken (run env evs (new_pool mem flags)) @ tasks (run env evs (new_pool mem flags))
      = calls evs"
    using run_order [of env evs "new_pool mem flags"] by (simp add: new_pool_def)
  then have 4: "tasks (run env evs (new_pool mem flags)) = [] \<longrightarrow>
      taken (run env evs (new_pool mem flags)) = calls evs"
    by auto
  from 1 2 3 4 show ?thesis by blast
qed

text \<open>
  Three jobs submitted in the order J1, J2, J3 to a single worker, the third while the
  worker is busy: they are taken in that order.
\<close>

theorem queue_is_fifo_witness:
  "tasks (enqueue J1 (new_pool mem0 flags0)) = [J1] \<and>
   tasks (worker demo_env (enqueue J1 (new_pool mem0 flags0))) = [] \<and>
   taken (worker demo_env (enqueue J1 (new_pool mem0 flags0))) = [J1] \<and>
   tasks (run demo_env demo_single (new_pool mem0 flags0)) = [] \<and>
   calls demo_single = [J1, J2, J3] \<and>
   taken (run demo_env demo_single (new_pool mem0 flags0)) = [J1, J2, J3]"
proof -
  have q: "tasks (enqueue J1 (new_pool mem0 flags0)) = J1 # []"
    by (simp add: enqueue_def new_pool_def)
  have t: "taken (enqueue J1 (new_pool mem0 flags0)) = []"
    by (simp add: enqueue_def new_pool_def)
  have c: "calls demo_single = [J1, J2, J3]" by (simp add: demo_single_def turn_def)
  from queue_is_fifo [of J1 "enqueue J1 (new_pool mem0 flags0)" "[]" demo_env
      demo_single mem0 flags0] q t c run_demo_order
  show ?thesis by simp
qed

subsection \<open>The identifiers of a response\<close>

text \<open>
  C9: no response is cross-assigned. When every call has its own response and its own
  completion flag while it waits, then in every run of the server, whatever the number
  of workers and the interleaving of their single steps (taking a task, processing it,
  each of the six setters, setting the flag) with each other and with the steps of the
  calls (enqueueing, leaving the wait, writing the response), every response that is
  written back to a caller carries the \<open>image_id\<close> and the \<open>filename\<close> of the
  request of that call.
\<close>

theorem responses_not_cross_assigned:
  assumes "calls_own_memory env (new_pool mem flags) evs"
  shows "\<forall>(task, r, status) \<in> set (written (run env evs (new_pool mem flags))).
           resp_image_id r = image_id (request task) \<and>
           resp_filename r = filename (request task)"
  using sound_run [OF sound_new assms]
  by (auto simp: sound_def answers_def)

text \<open>
  The small example: two workers whose steps alternate, four calls that return in
  another order than they were made, the last in the frame of the first.
\<close>

theorem responses_not_cross_assigned_witness:
  "calls_own_memory demo_env (new_pool mem0 flags0) demo_events \<and>
   taken (run demo_env demo_events (new_pool mem0 flags0)) = [J1, J2, J3, J4] \<and>
   map fst (written (run demo_env demo_events (new_pool mem0 flags0))) = [J2, J1, J3, J4] \<and>
   list_all
     (\<lambda>(task, r, status).
        resp_image_id r = image_id (request task) \<and> resp_filename r = filename (request task))
     (written (run demo_env demo_events (new_pool mem0 flags0)))"
proof -
  from responses_not_cross_assigned [OF demo_calls_own_memory]
  have "list_all
     (\<lambda>(task, r, status).
        resp_image_id r = image_id (request task) \<and> resp_filename r = filename (request task))
     (written (run demo_env demo_events (new_pool mem0 flags0)))"
    by (simp only: list_all_iff)
  with demo_calls_own_memory run_demo_written run_demo_taken show ?thesis by blast
qed

end
